theory Spec2Isabelle
  imports Main
begin

section \<open>The data model\<close>

text \<open>
  The structs of the package as records.  A \<open>nil\<close> slice, map or pointer is \<open>None\<close>
  wherever the source tells it apart from an empty one.
\<close>

record Resource =
  Type :: string
  ID :: string

type_synonym ResourceFields = "string \<rightharpoonup> string list"

record Filter =
  FieldName :: string
  Predicate :: string

text \<open>
  An \<open>Include\<close> owns the slice of its children.  The source only ever tests that
  slice against \<open>nil\<close> and never builds an empty one that is not \<open>nil\<close>, so the
  empty list stands for \<open>nil\<close>.
\<close>

datatype Include = Include (Relation: string) (Includes: "Include list")

record Page =
  Size :: string
  Number :: string
  Limit :: string
  Offset :: string
  Cursor :: string

datatype SortOrder = OrderAsc | OrderDesc

record Sort =
  FieldName :: string
  Order :: SortOrder

record Value =
  TopLevelKey :: string
  NestedKeys :: "string list option"
  Value :: string

type_synonym Values = "string \<rightharpoonup> Value list"

record Query =
  Includes :: "Include list option"
  Fields :: "ResourceFields option"
  Sort :: "Sort list option"
  Filters :: "Filter list option"
  Page :: "Page option"
  Values :: Values

record Request =
  Resource :: Resource
  RelationshipType :: string
  RelatedResourceType :: string
  Query :: "Query option"

text \<open>The errors the package returns, with what their messages name.\<close>

datatype error =
    PathUnescapeError
  | QueryUnescapeError
  | EmptyPathError
  | PathFormatError string string
  | UnknownPathFormatError string

text \<open>\<open>len\<close> of a slice that may be \<open>nil\<close>.\<close>

definition len :: "'a list option \<Rightarrow> nat" where
  "len xs = (case xs of None \<Rightarrow> 0 | Some l \<Rightarrow> length l)"

definition IsRelationshipRequest :: "Request \<Rightarrow> bool" where
  "IsRelationshipRequest r = (RelatedResourceType r \<noteq> [])"

definition IsRelatedResourceRequest :: "Request \<Rightarrow> bool" where
  "IsRelatedResourceRequest r = (RelatedResourceType r \<noteq> [])"

definition relationshipsRequest :: string where
  "relationshipsRequest = ''relationships''"

section \<open>Strings of the Go runtime\<close>

text \<open>
  A Go string is a sequence of bytes; \<^typ>\<open>string\<close> is a list of 8-bit characters, so
  indexing, slicing and \<open>len\<close> of the source are \<open>!\<close>, \<open>take\<close>/\<open>drop\<close> and
  \<open>length\<close> here.  A multi-byte code point is several characters, as in Go.
\<close>

text \<open>\<open>strings.IndexByte\<close>: the index of the first occurrence of \<open>c\<close>, \<open>None\<close> for Go's \<open>-1\<close>.\<close>

fun IndexByte :: "string \<Rightarrow> char \<Rightarrow> nat option" where
  "IndexByte [] c = None"
| "IndexByte (x # xs) c =
     (if x = c then Some 0 else map_option Suc (IndexByte xs c))"

text \<open>\<open>strings.IndexAny\<close>: the index of the first character that occurs in \<open>chars\<close>.\<close>

fun IndexAny :: "string \<Rightarrow> string \<Rightarrow> nat option" where
  "IndexAny [] chars = None"
| "IndexAny (x # xs) chars =
     (if x \<in> set chars then Some 0 else map_option Suc (IndexAny xs chars))"

text \<open>
  \<open>strings.Split(s, sep)\<close> for a one-byte separator: all substrings between the
  separators; the result is never empty (\<open>Split "" sep = [""]\<close>).
\<close>

fun Split :: "string \<Rightarrow> char \<Rightarrow> string list" where
  "Split [] sep = [[]]"
| "Split (c # s) sep =
     (if c = sep then [] # Split s sep
      else (case Split s sep of [] \<Rightarrow> [[c]] | x # xs \<Rightarrow> (c # x) # xs))"

text \<open>
  The repository's \<open>split\<close>: the two substrings around the first occurrence of \<open>sep\<close>;
  with \<open>cutc\<close> the separator is left out of the second one.
\<close>

definition split :: "string \<Rightarrow> char \<Rightarrow> bool \<Rightarrow> string \<times> string" where
  "split s sep cutc =
     (case IndexByte s sep of
        None \<Rightarrow> (s, [])
      | Some i \<Rightarrow> if cutc then (take i s, drop (i + 1) s) else (take i s, drop i s))"

section \<open>Percent-decoding\<close>

text \<open>
  \<open>url.PathUnescape\<close> and \<open>url.QueryUnescape\<close> of Go's standard library: every
  \<open>%XY\<close> with two hexadecimal digits becomes the byte \<open>XY\<close>, any other \<open>%\<close> is an
  error (\<open>None\<close>; the text of the error is not modelled), and in a query component
  \<open>+\<close> becomes a space.
\<close>

datatype encoding = encodePathSegment | encodeQueryComponent

definition ishex :: "char \<Rightarrow> bool" where
  "ishex c =
     (let n = (of_char c :: nat)
      in 48 \<le> n \<and> n \<le> 57 \<or> 97 \<le> n \<and> n \<le> 102 \<or> 65 \<le> n \<and> n \<le> 70)"

definition unhex :: "char \<Rightarrow> nat" where
  "unhex c =
     (let n = (of_char c :: nat)
      in if 48 \<le> n \<and> n \<le> 57 then n - 48
         else if 97 \<le> n \<and> n \<le> 102 then n - 97 + 10
         else if 65 \<le> n \<and> n \<le> 70 then n - 65 + 10
         else 0)"

fun unescape :: "encoding \<Rightarrow> string \<Rightarrow> string option" where
  "unescape mode [] = Some []"
| "unescape mode (c # s) =
     (if c = CHR ''%'' then
        (case s of
           a # b # t \<Rightarrow>
             if ishex a \<and> ishex b
             then map_option ((#) (char_of (unhex a * 16 + unhex b))) (unescape mode t)
             else None
         | _ \<Rightarrow> None)
      else if c = CHR ''+'' \<and> mode = encodeQueryComponent
        then map_option ((#) CHR '' '') (unescape mode s)
      else map_option ((#) c) (unescape mode s))"

definition PathUnescape :: "string \<Rightarrow> string option" where
  "PathUnescape s = unescape encodePathSegment s"

definition QueryUnescape :: "string \<Rightarrow> string option" where
  "QueryUnescape s = unescape encodeQueryComponent s"

section \<open>The delimiter normalizer\<close>

definition delim :: char where
  "delim = CHR ''/''"

text \<open>
  The loop of \<open>removeExtraDelimiters\<close> over \<open>path[1:]\<close>: \<open>rm\<close> tells whether the last
  byte written was the delimiter, \<open>result\<close> is the output so far.
\<close>

fun removeLoop :: "string \<Rightarrow> bool \<Rightarrow> string \<Rightarrow> string" where
  "removeLoop [] rm result = result"
| "removeLoop (c # cs) rm result =
     (if c = delim \<and> rm then removeLoop cs rm result
      else removeLoop cs (c = delim) (result @ [c]))"

definition removeExtraDelimiters :: "string \<Rightarrow> string" where
  "removeExtraDelimiters path =
     (case path of
        [] \<Rightarrow> path
      | c # cs \<Rightarrow> removeLoop cs (c = delim) [c])"

text \<open>A string has a run of two or more delimiters.\<close>

fun adjacentDelims :: "string \<Rightarrow> bool" where
  "adjacentDelims (c # d # s) = (c = delim \<and> d = delim \<or> adjacentDelims (d # s))"
| "adjacentDelims s = False"

section \<open>The bracket key extractor\<close>

definition openBracket :: char where
  "openBracket = CHR ''[''"

definition closeBracket :: char where
  "closeBracket = CHR '']''"

definition nestedKeyDefMin :: nat where
  "nestedKeyDefMin = 3"

text \<open>
  The first loop of \<open>extractKeys\<close>, at index \<open>i\<close> with the bytes from \<open>i\<close> on still to
  read.  \<open>None\<close> is the early \<open>return key, nil\<close>; otherwise the top key and \<open>rest\<close>
  (empty when no opening bracket was met).
\<close>

fun scanTopKey :: "nat \<Rightarrow> string \<Rightarrow> string \<Rightarrow> (string \<times> string) option" where
  "scanTopKey i [] topKey = Some (topKey, [])"
| "scanTopKey i (c # cs) topKey =
     (if c = closeBracket \<or> i = 0 \<and> c = openBracket then None
      else if c = openBracket then Some (topKey, c # cs)
      else scanTopKey (i + 1) cs (topKey @ [c]))"

text \<open>
  The second loop, over \<open>rest\<close>.  \<open>None\<close> is again \<open>return key, nil\<close>; when the loop
  runs off the end of \<open>rest\<close> the nested keys collected so far are returned.
\<close>

fun scanNested :: "string \<Rightarrow> bool \<Rightarrow> string \<Rightarrow> string list \<Rightarrow> string list option" where
  "scanNested [] opened nestedKey nestedKeys = Some nestedKeys"
| "scanNested (c # cs) opened nestedKey nestedKeys =
     (if opened \<and> c = openBracket \<or> \<not> opened \<and> c \<noteq> openBracket then None
      else if c = openBracket then scanNested cs True nestedKey nestedKeys
      else if c = closeBracket then
        (if nestedKey = [] then None
         else scanNested cs False [] (nestedKeys @ [nestedKey]))
      else scanNested cs opened (nestedKey @ [c]) nestedKeys)"

text \<open>
  \<open>extractKeys\<close> returns the top key and the nested keys; a \<open>nil\<close> slice is \<open>None\<close>,
  a slice that is not \<open>nil\<close> is \<open>Some\<close> of its elements.
\<close>

definition extractKeys :: "string \<Rightarrow> string \<times> string list option" where
  "extractKeys key =
     (if key = [] then (key, None)
      else case scanTopKey 0 key [] of
        None \<Rightarrow> (key, None)
      | Some (topKey, rest) \<Rightarrow>
          if rest = [] \<or> length rest < nestedKeyDefMin then (key, None)
          else (case scanNested rest False [] [] of
                  None \<Rightarrow> (key, None)
                | Some nestedKeys \<Rightarrow> (topKey, Some nestedKeys)))"

section \<open>The query tokenizer\<close>

text \<open>
  One round of the loop of \<open>ParseValues\<close> takes the fragment up to the first \<open>&\<close> or
  \<open>;\<close> off the query: the fragment and what is left of the query.
\<close>

definition cutFragment :: "string \<Rightarrow> string \<times> string" where
  "cutFragment query =
     (case IndexAny query ''&;'' of
        Some i \<Rightarrow> (take i query, drop (i + 1) query)
      | None \<Rightarrow> (query, []))"

text \<open>The key and the value of a fragment, around its first \<open>=\<close>.\<close>

definition keyValue :: "string \<Rightarrow> string \<times> string" where
  "keyValue key =
     (case IndexByte key CHR ''='' of
        Some i \<Rightarrow> (take i key, drop (i + 1) key)
      | None \<Rightarrow> (key, []))"

text \<open>
  The rest of the loop body for a fragment that is not empty: the record \<open>kv\<close> is
  built and appended to the values under the top key.
\<close>

definition addFragment :: "string \<Rightarrow> Values \<Rightarrow> Values" where
  "addFragment fragment values =
     (let (key, value) = keyValue fragment;
          (topKey, nestedKeys) = extractKeys key;
          kv = \<lparr>TopLevelKey = topKey, NestedKeys = nestedKeys, Value = value\<rparr>
      in values(topKey \<mapsto> (case values topKey of None \<Rightarrow> [] | Some l \<Rightarrow> l) @ [kv]))"

function parseLoop :: "string \<Rightarrow> Values \<Rightarrow> Values" where
  "parseLoop query values =
     (if query = [] then values
      else if fst (cutFragment query) = [] then parseLoop (snd (cutFragment query)) values
      else parseLoop (snd (cutFragment query)) (addFragment (fst (cutFragment query)) values))"
  by pat_completeness auto
termination
proof (relation "measure (\<lambda>(query, values). length query)")
  have bound: "i < length s" if "IndexAny s chars = Some i" for s chars i
    using that by (induction s arbitrary: i) (auto split: if_splits)
  have shorter: "length (snd (cutFragment query)) < length query" if "query \<noteq> []" for query
    using that bound [of query "''&;''"]
    by (cases "IndexAny query ''&;''") (auto simp: cutFragment_def)
  show "wf (measure (\<lambda>(query, values). length query))"
    by simp
  show "((snd (cutFragment query), vs), (query, vs))
          \<in> measure (\<lambda>(query, values). length query)"
    if "query \<noteq> []" for query and vs :: Values
    using shorter [OF that] by simp
  show "((snd (cutFragment query), addFragment (fst (cutFragment query)) vs), (query, vs))
          \<in> measure (\<lambda>(query, values). length query)"
    if "query \<noteq> []" for query and vs :: Values
    using shorter [OF that] by simp
qed

declare parseLoop.simps [simp del]

definition ParseValues :: "string \<Rightarrow> error + Values" where
  "ParseValues query =
     (case QueryUnescape query of
        None \<Rightarrow> Inl QueryUnescapeError
      | Some query' \<Rightarrow>
          Inr (parseLoop
                 (if query' \<noteq> [] \<and> query' ! 0 = CHR ''?'' then drop 1 query' else query')
                 Map.empty))"

section \<open>The path segment classifier\<close>

text \<open>
  The segments of a decoded path, as the classifier counts them: the path is
  normalized, one leading separator is dropped and the rest is split at the separators.
\<close>

definition pathSegments :: "string \<Rightarrow> string list" where
  "pathSegments decoded =
     (let p = removeExtraDelimiters decoded
      in Split (if p \<noteq> [] \<and> hd p = CHR ''/'' then tl p else p) CHR ''/'')"

text \<open>\<open>new(Request)\<close>: every field at its zero value.\<close>

definition newRequest :: Request where
  "newRequest =
     \<lparr>Resource = \<lparr>Type = [], ID = []\<rparr>, RelationshipType = [],
      RelatedResourceType = [], Query = None\<rparr>"

definition parsePath :: "string \<Rightarrow> error + Request" where
  "parsePath path =
     (case PathUnescape path of
        None \<Rightarrow> Inl PathUnescapeError
      | Some decoded \<Rightarrow>
          let path1 = removeExtraDelimiters decoded
          in if path1 = [] \<or> (length path1 = 1 \<and> path1 ! 0 = CHR ''/'') then Inl EmptyPathError
             else
               let path2 = (if path1 ! 0 = CHR ''/'' then drop 1 path1 else path1);
                   requestParts = Split path2 CHR ''/''
               in if length requestParts = 1 then
                    Inr (newRequest\<lparr>Resource := \<lparr>Type = requestParts ! 0, ID = []\<rparr>\<rparr>)
                  else if length requestParts = 2 then
                    Inr (newRequest\<lparr>Resource := \<lparr>Type = requestParts ! 0, ID = requestParts ! 1\<rparr>\<rparr>)
                  else if length requestParts = 3 then
                    Inr (newRequest\<lparr>Resource := \<lparr>Type = requestParts ! 0, ID = requestParts ! 1\<rparr>,
                                    RelatedResourceType := requestParts ! 2\<rparr>)
                  else if length requestParts = 4 then
                    (if requestParts ! 2 \<noteq> relationshipsRequest
                     then Inl (PathFormatError relationshipsRequest (requestParts ! 2))
                     else Inr (newRequest\<lparr>Resource := \<lparr>Type = requestParts ! 0, ID = requestParts ! 1\<rparr>,
                                          RelationshipType := requestParts ! 3\<rparr>))
                  else Inl (UnknownPathFormatError path2))"

section \<open>The projection builders\<close>

definition fieldsDelimiter :: char where
  "fieldsDelimiter = CHR '',''"

definition pageKeyword :: string where
  "pageKeyword = ''page''"

definition sortKeyword :: string where
  "sortKeyword = ''sort''"

definition filterKeyword :: string where
  "filterKeyword = ''filter''"

definition includeKeyword :: string where
  "includeKeyword = ''include''"

definition fieldsKeyword :: string where
  "fieldsKeyword = ''fields''"

subsection \<open>Resource fields\<close>

text \<open>
  The inner loop of \<open>initResourceFields\<close> over the items of one value: \<open>toAppend\<close>
  and the set \<open>byResource\<close> of the names seen for the resource type.
\<close>

fun appendUnique :: "string list \<Rightarrow> string list \<times> string set \<Rightarrow> string list \<times> string set" where
  "appendUnique [] (toAppend, byResource) = (toAppend, byResource)"
| "appendUnique (item # list) (toAppend, byResource) =
     (if item = [] then appendUnique list (toAppend, byResource)
      else if item \<in> byResource then appendUnique list (toAppend, byResource)
      else appendUnique list (toAppend @ [item], insert item byResource))"

text \<open>
  The body of the outer loop for one value.  The state is the map \<open>fields\<close> of the
  source (\<open>resFields\<close> here), the map
  \<open>duplicates\<close> from a resource type to the set of its names, and \<open>returnFields\<close>.
  \<open>byResource\<close> is the set stored in \<open>duplicates\<close>, so what the inner loop adds to it
  is stored there.
\<close>

definition fieldsStep ::
  "Value \<Rightarrow> ResourceFields \<times> (string \<rightharpoonup> string set) \<times> bool
     \<Rightarrow> ResourceFields \<times> (string \<rightharpoonup> string set) \<times> bool" where
  "fieldsStep val st =
     (case st of (resFields, duplicates, returnFields) \<Rightarrow>
        if Value val = [] \<or> len (NestedKeys val) \<noteq> 1 then st
        else
          let resourceType = the (NestedKeys val) ! 0;
              byResource = (case duplicates resourceType of None \<Rightarrow> {} | Some seen \<Rightarrow> seen);
              inner = appendUnique (Split (Value val) fieldsDelimiter) ([], byResource);
              toAppend = fst inner;
              duplicates' = duplicates(resourceType \<mapsto> snd inner)
          in if toAppend = [] then (resFields, duplicates', returnFields)
             else (case resFields resourceType of
                     Some list \<Rightarrow> (resFields(resourceType \<mapsto> list @ toAppend), duplicates', True)
                   | None \<Rightarrow> (resFields(resourceType \<mapsto> toAppend), duplicates', True)))"

fun fieldsLoop ::
  "Value list \<Rightarrow> ResourceFields \<times> (string \<rightharpoonup> string set) \<times> bool
     \<Rightarrow> ResourceFields \<times> (string \<rightharpoonup> string set) \<times> bool" where
  "fieldsLoop [] st = st"
| "fieldsLoop (val # vals) st = fieldsLoop vals (fieldsStep val st)"

definition initResourceFields :: "Values \<Rightarrow> ResourceFields option" where
  "initResourceFields values =
     (case values fieldsKeyword of
        None \<Rightarrow> None
      | Some fieldsValues \<Rightarrow>
          (case fieldsLoop fieldsValues (Map.empty, Map.empty, False) of
             (resFields, duplicates, returnFields) \<Rightarrow> if returnFields then Some resFields else None))"

subsection \<open>Sort\<close>

definition sortDelimiter :: char where
  "sortDelimiter = CHR '',''"

definition sortDescChar :: char where
  "sortDescChar = CHR ''-''"

text \<open>
  The inner loop of \<open>initSort\<close>, \<open>for cur != ""\<close>, on the variables \<open>cur\<close> and \<open>rest\<close>;
  the state is the slice \<open>sort\<close>, \<open>returnSort\<close> and the set \<open>duplicates\<close>.
\<close>

function sortLoop ::
  "string \<Rightarrow> string \<Rightarrow> Sort list \<times> bool \<times> string set \<Rightarrow> Sort list \<times> bool \<times> string set" where
  "sortLoop cur rest st =
     (if cur = [] then st
      else
        let order = (if cur ! 0 = sortDescChar then OrderDesc else OrderAsc);
            name = (if cur ! 0 = sortDescChar then drop 1 cur else cur);
            cur' = fst (split rest sortDelimiter True);
            rest' = snd (split rest sortDelimiter True)
        in if name \<in> snd (snd st) then sortLoop cur' rest' st
           else if name = [] then sortLoop cur' rest' st
           else sortLoop cur' rest'
                  (fst st @ [\<lparr>FieldName = name, Order = order\<rparr>], True, insert name (snd (snd st))))"
  by pat_completeness auto
termination
proof -
  have bound: "i < length s" if "IndexByte s c = Some i" for s c i
    using that by (induction s arbitrary: i) (auto split: if_splits)
  have le: "length (fst (split rest c True)) + length (snd (split rest c True)) \<le> length rest"
    for rest c
    using bound [of rest c] by (cases "IndexByte rest c") (auto simp: split_def)
  have lt: "length (fst (split rest c True)) + length (snd (split rest c True))
              < length cur + length rest" if "cur \<noteq> []" for cur rest c
    using that le [of rest c] by (cases cur) auto
  show ?thesis
    by (relation "measure (\<lambda>(cur, rest, st). length cur + length rest)")
       (use lt in simp_all)
qed

declare sortLoop.simps [simp del]

definition sortStep :: "Value \<Rightarrow> Sort list \<times> bool \<times> string set \<Rightarrow> Sort list \<times> bool \<times> string set" where
  "sortStep val st =
     (if Value val = [] \<or> len (NestedKeys val) \<noteq> 0 then st
      else sortLoop (fst (split (Value val) sortDelimiter True))
             (snd (split (Value val) sortDelimiter True)) st)"

fun sortValuesLoop :: "Value list \<Rightarrow> Sort list \<times> bool \<times> string set \<Rightarrow> Sort list \<times> bool \<times> string set" where
  "sortValuesLoop [] st = st"
| "sortValuesLoop (val # vals) st = sortValuesLoop vals (sortStep val st)"

definition initSort :: "Values \<Rightarrow> Sort list option" where
  "initSort values =
     (case values sortKeyword of
        None \<Rightarrow> None
      | Some sortValues \<Rightarrow>
          (case sortValuesLoop sortValues ([], False, {}) of
             (sorts, returnSort, duplicates) \<Rightarrow> if returnSort then Some sorts else None))"

subsection \<open>Filters\<close>

definition filterStep :: "Value \<Rightarrow> Filter list \<times> bool \<Rightarrow> Filter list \<times> bool" where
  "filterStep val st =
     (if Value val = [] \<or> len (NestedKeys val) \<noteq> 1 then st
      else (fst st @ [\<lparr>Filter.FieldName = the (NestedKeys val) ! 0, Predicate = Value val\<rparr>], True))"

fun filterLoop :: "Value list \<Rightarrow> Filter list \<times> bool \<Rightarrow> Filter list \<times> bool" where
  "filterLoop [] st = st"
| "filterLoop (val # vals) st = filterLoop vals (filterStep val st)"

definition initFilters :: "Values \<Rightarrow> Filter list option" where
  "initFilters values =
     (case values filterKeyword of
        None \<Rightarrow> None
      | Some filterValues \<Rightarrow>
          (case filterLoop filterValues ([], False) of
             (filters, returnFilters) \<Rightarrow> if returnFilters then Some filters else None))"

subsection \<open>Includes\<close>

definition relationDelimiter :: char where
  "relationDelimiter = CHR '',''"

definition nestedRelationDelimiter :: char where
  "nestedRelationDelimiter = CHR ''.''"

text \<open>
  The search loop of \<open>expandInclude\<close>: the first index \<open>i\<close> with
  \<open>root.Includes[i].Relation == cur\<close>.
\<close>

fun findRelation :: "Include list \<Rightarrow> string \<Rightarrow> nat option" where
  "findRelation [] cur = None"
| "findRelation (x # xs) cur =
     (if Relation x = cur then Some 0 else map_option Suc (findRelation xs cur))"

text \<open>
  \<open>expandInclude\<close> changes the node that \<open>root\<close> points to and, through \<open>newRoot\<close>,
  one element of its slice of children; no other pointer to these nodes is used while
  it runs, so the model returns the node as changed.
\<close>

function expandInclude :: "Include \<Rightarrow> string \<Rightarrow> Include" where
  "expandInclude root queryPart =
     (if queryPart = [] then root
      else
        let cur = fst (split queryPart nestedRelationDelimiter True);
            rest = snd (split queryPart nestedRelationDelimiter True)
        in if Include.Includes root = [] then
             Include (Relation root) [expandInclude (Include cur []) rest]
           else
             (case findRelation (Include.Includes root) cur of
                Some i \<Rightarrow>
                  Include (Relation root)
                    ((Include.Includes root)[i := expandInclude (Include.Includes root ! i) rest])
              | None \<Rightarrow>
                  Include (Relation root)
                    (Include.Includes root @ [expandInclude (Include cur []) rest])))"
  by pat_completeness auto
termination
proof -
  have bound: "i < length s" if "IndexByte s c = Some i" for s c i
    using that by (induction s arbitrary: i) (auto split: if_splits)
  have lt: "length (snd (split s c True)) < length s" if "s \<noteq> []" for s c
    using that bound [of s c] by (cases "IndexByte s c") (auto simp: split_def)
  show ?thesis
    by (relation "measure (\<lambda>(root, queryPart). length queryPart)") (use lt in simp_all)
qed

declare expandInclude.simps [simp del]

text \<open>
  The inner loop of \<open>initIncludes\<close>.  The root nodes live in \<open>ordered\<close>; a pointer to
  a root node is its index there, and \<open>roots\<close> maps a relation name to the pointer of
  its root node.  The state is the pair of \<open>roots\<close> and \<open>ordered\<close>.
\<close>

function includeLoop ::
  "string \<Rightarrow> string \<Rightarrow> (string \<rightharpoonup> nat) \<times> Include list
     \<Rightarrow> (string \<rightharpoonup> nat) \<times> Include list" where
  "includeLoop cur rest st =
     (if cur = [] then st
      else
        let rootKey = fst (split cur nestedRelationDelimiter True);
            next = snd (split cur nestedRelationDelimiter True);
            st' = (case fst st rootKey of
                     Some existingRoot \<Rightarrow>
                       (fst st, (snd st)[existingRoot := expandInclude (snd st ! existingRoot) next])
                   | None \<Rightarrow>
                       ((fst st)(rootKey \<mapsto> length (snd st)),
                        snd st @ [expandInclude (Include rootKey []) next]))
        in includeLoop (fst (split rest relationDelimiter True))
             (snd (split rest relationDelimiter True)) st')"
  by pat_completeness auto
termination
proof -
  have bound: "i < length s" if "IndexByte s c = Some i" for s c i
    using that by (induction s arbitrary: i) (auto split: if_splits)
  have le: "length (fst (split rest c True)) + length (snd (split rest c True)) \<le> length rest"
    for rest c
    using bound [of rest c] by (cases "IndexByte rest c") (auto simp: split_def)
  have lt: "length (fst (split rest c True)) + length (snd (split rest c True))
              < length cur + length rest" if "cur \<noteq> []" for cur rest c
    using that le [of rest c] by (cases cur) auto
  show ?thesis
    by (relation "measure (\<lambda>(cur, rest, st). length cur + length rest)")
       (use lt in simp_all)
qed

declare includeLoop.simps [simp del]

definition includeStep ::
  "Value \<Rightarrow> (string \<rightharpoonup> nat) \<times> Include list \<Rightarrow> (string \<rightharpoonup> nat) \<times> Include list" where
  "includeStep val st =
     (if len (NestedKeys val) > 0 \<or> Value val = [] then st
      else includeLoop (fst (split (Value val) relationDelimiter True))
             (snd (split (Value val) relationDelimiter True)) st)"

fun includeValuesLoop ::
  "Value list \<Rightarrow> (string \<rightharpoonup> nat) \<times> Include list \<Rightarrow> (string \<rightharpoonup> nat) \<times> Include list" where
  "includeValuesLoop [] st = st"
| "includeValuesLoop (val # vals) st = includeValuesLoop vals (includeStep val st)"

text \<open>The result is the slice of the nodes in \<open>ordered\<close>, never \<open>nil\<close> when the key is there.\<close>

definition initIncludes :: "Values \<Rightarrow> Include list option" where
  "initIncludes values =
     (case values includeKeyword of
        None \<Rightarrow> None
      | Some incValues \<Rightarrow> Some (snd (includeValuesLoop incValues (Map.empty, []))))"

subsection \<open>Page\<close>

definition newPage :: Page where
  "newPage = \<lparr>Size = [], Number = [], Limit = [], Offset = [], Cursor = []\<rparr>"

definition pageStep :: "Value \<Rightarrow> Page \<times> bool \<Rightarrow> Page \<times> bool" where
  "pageStep val st =
     (if len (NestedKeys val) \<noteq> 1 then st
      else
        let key = the (NestedKeys val) ! 0
        in if key = ''size'' then ((fst st)\<lparr>Size := Value val\<rparr>, True)
           else if key = ''number'' then ((fst st)\<lparr>Number := Value val\<rparr>, True)
           else if key = ''limit'' then ((fst st)\<lparr>Limit := Value val\<rparr>, True)
           else if key = ''offset'' then ((fst st)\<lparr>Offset := Value val\<rparr>, True)
           else if key = ''cursor'' then ((fst st)\<lparr>Cursor := Value val\<rparr>, True)
           else st)"

fun pageLoop :: "Value list \<Rightarrow> Page \<times> bool \<Rightarrow> Page \<times> bool" where
  "pageLoop [] st = st"
| "pageLoop (val # vals) st = pageLoop vals (pageStep val st)"

definition initPage :: "Values \<Rightarrow> Page option" where
  "initPage values =
     (case values pageKeyword of
        None \<Rightarrow> None
      | Some pageValues \<Rightarrow>
          (case pageLoop pageValues (newPage, False) of
             (page, returnPage) \<Rightarrow> if returnPage then Some page else None))"

section \<open>The assembler\<close>

definition ParseQuery :: "string \<Rightarrow> error + Query" where
  "ParseQuery query =
     (case ParseValues query of
        Inl err \<Rightarrow> Inl err
      | Inr values \<Rightarrow>
          Inr \<lparr>Includes = initIncludes values,
               Fields = initResourceFields values,
               Sort = initSort values,
               Filters = initFilters values,
               Page = initPage values,
               Values = values\<rparr>)"

definition ParseRequest :: "string \<Rightarrow> error + Request" where
  "ParseRequest params =
     (case split params CHR ''?'' True of
        (path, query) \<Rightarrow>
          (case parsePath path of
             Inl err \<Rightarrow> Inl err
           | Inr request \<Rightarrow>
               (case ParseQuery query of
                  Inl err \<Rightarrow> Inl err
                | Inr q \<Rightarrow> Inr (request\<lparr>Query := Some q\<rparr>))))"

section \<open>Notions of the specification\<close>

text \<open>
  The definitions of this section are not translations of source functions: they
  state, in plain functional terms, the notions with which the theorems below say
  what the translated code computes.
\<close>

text \<open>All substrings between separators, for a set of one-byte separators.\<close>

fun splitAny :: "string \<Rightarrow> string \<Rightarrow> string list" where
  "splitAny [] seps = [[]]"
| "splitAny (c # s) seps =
     (if c \<in> set seps then [] # splitAny s seps
      else (case splitAny s seps of [] \<Rightarrow> [[c]] | x # xs \<Rightarrow> (c # x) # xs))"

text \<open>
  The fragments of a query string: the substrings between \<open>&\<close> and \<open>;\<close> that are
  not empty, in the order of the string.
\<close>

definition fragments :: "string \<Rightarrow> string list" where
  "fragments query = filter (\<lambda>fragment. fragment \<noteq> []) (splitAny query ''&;'')"

text \<open>
  The record of a fragment: its key and value around the first \<open>=\<close>, the key
  decomposed by the bracket key extractor.
\<close>

definition fragmentValue :: "string \<Rightarrow> Value" where
  "fragmentValue fragment =
     \<lparr>TopLevelKey = fst (extractKeys (fst (keyValue fragment))),
      NestedKeys = snd (extractKeys (fst (keyValue fragment))),
      Value = snd (keyValue fragment)\<rparr>"

text \<open>The records of the fragments with top key \<open>key\<close>, in the order of the string.\<close>

definition valuesUnder :: "string \<Rightarrow> string \<Rightarrow> Value list" where
  "valuesUnder key query =
     filter (\<lambda>v. TopLevelKey v = key) (map fragmentValue (fragments query))"

text \<open>
  Deduplication by a key, keeping first occurrences: an element stays where it first
  occurs and every later element with the same key is dropped.
\<close>

fun firstOccurrences :: "('a \<Rightarrow> 'k) \<Rightarrow> 'a list \<Rightarrow> 'a list" where
  "firstOccurrences key [] = []"
| "firstOccurrences key (x # xs) =
     x # firstOccurrences key (filter (\<lambda>y. key y \<noteq> key x) xs)"

text \<open>
  A comma-separated piece of a \<open>sort\<close> value as a sort entry: a leading \<open>-\<close> is
  stripped and means descending.
\<close>

definition sortEntry :: "string \<Rightarrow> Sort" where
  "sortEntry piece =
     (if piece \<noteq> [] \<and> hd piece = CHR ''-''
      then \<lparr>FieldName = tl piece, Order = OrderDesc\<rparr>
      else \<lparr>FieldName = piece, Order = OrderAsc\<rparr>)"

text \<open>
  The sort entries of one value string, in order: one for every piece between the
  commas; an entry with an empty name (from an empty piece or from the piece \<open>-\<close>)
  is skipped.
\<close>

definition sortEntries :: "string \<Rightarrow> Sort list" where
  "sortEntries v =
     filter (\<lambda>e. FieldName e \<noteq> []) (map sortEntry (Split v CHR '',''))"

text \<open>The values of the \<open>sort\<close> key that the builder uses: no nested key, a value.\<close>

definition sortable :: "Value \<Rightarrow> bool" where
  "sortable val = (Value val \<noteq> [] \<and> len (NestedKeys val) = 0)"

text \<open>
  \<open>strings.TrimSpace\<close> on bytes: the white space at both ends is removed.
\<close>

definition isSpace :: "char \<Rightarrow> bool" where
  "isSpace c = (c \<in> set [CHR '' '', CHR 0x09, CHR 0x0A, CHR 0x0B, CHR 0x0C, CHR 0x0D])"

definition trimSpace :: "string \<Rightarrow> string" where
  "trimSpace s = rev (dropWhile isSpace (rev (dropWhile isSpace s)))"

text \<open>
  An entry of the \<open>fields\<close> key that the builder accepts for a resource type: the
  type is its only nested key and its value is not empty (the value is taken as it
  is, nothing is trimmed).
\<close>

definition fieldsEntry :: "string \<Rightarrow> Value \<Rightarrow> bool" where
  "fieldsEntry resourceType val =
     (Value val \<noteq> [] \<and> NestedKeys val = Some [resourceType])"

text \<open>The field names of a value: the pieces between the commas that are not empty.\<close>

definition fieldItems :: "string \<Rightarrow> string list" where
  "fieldItems v = filter (\<lambda>item. item \<noteq> []) (Split v CHR '','')"

text \<open>
  The fields of a resource type: the names of all its accepted entries, in the order
  of the entries, without the later occurrences of a name.
\<close>

definition fieldsOf :: "Value list \<Rightarrow> string \<Rightarrow> string list" where
  "fieldsOf vals resourceType =
     firstOccurrences (\<lambda>item. item)
       (concat (map (\<lambda>val. fieldItems (Value val)) (filter (fieldsEntry resourceType) vals)))"

text \<open>
  The invariant of the loop of \<open>initResourceFields\<close>: its state once the entries
  \<open>seen\<close> are processed.
\<close>

definition fieldsState ::
  "Value list \<Rightarrow> ResourceFields \<times> (string \<rightharpoonup> string set) \<times> bool \<Rightarrow> bool" where
  "fieldsState seen st =
     (case st of (resFields, duplicates, returnFields) \<Rightarrow>
        (\<forall>resourceType.
           resFields resourceType =
             (if fieldsOf seen resourceType = [] then None else Some (fieldsOf seen resourceType))
           \<and> (case duplicates resourceType of None \<Rightarrow> {} | Some names \<Rightarrow> names) =
               set (fieldsOf seen resourceType))
        \<and> (returnFields \<longleftrightarrow> (\<exists>resourceType. fieldsOf seen resourceType \<noteq> [])))"

text \<open>
  The relation path of a chain: its pieces between the dots; one empty piece at the
  end is left out (\<open>a.b.\<close> is the path of \<open>a.b\<close>).
\<close>

definition relationPath :: "string \<Rightarrow> string list" where
  "relationPath chain =
     (let pieces = Split chain CHR ''.''
      in if last pieces = [] then butlast pieces else pieces)"

text \<open>The relation chains of one value string, in order: the pieces between the commas.\<close>

definition includeChains :: "string \<Rightarrow> string list" where
  "includeChains v = Split v CHR '',''"

text \<open>The values of the \<open>include\<close> key that the builder uses: no nested key, a value.\<close>

definition includable :: "Value \<Rightarrow> bool" where
  "includable val = (len (NestedKeys val) = 0 \<and> Value val \<noteq> [])"

text \<open>The paths that start with the relation \<open>h\<close>, without this first relation.\<close>

definition below :: "string \<Rightarrow> string list list \<Rightarrow> string list list" where
  "below h paths = map tl (filter (\<lambda>path. path \<noteq> [] \<and> hd path = h) paths)"

text \<open>
  The forest of a list of relation paths.  Its roots are the first relations of the
  paths, each once, in the order of first appearance; the children of a root are the
  forest of the paths below it.
\<close>

function forestOf :: "string list list \<Rightarrow> Include list" where
  "forestOf paths =
     map (\<lambda>h. Include h (forestOf (below h paths)))
       (firstOccurrences (\<lambda>h. h) (map hd (filter (\<lambda>path. path \<noteq> []) paths)))"
  by pat_completeness auto
termination
proof (relation "measure (\<lambda>paths. sum_list (map length paths))")
  show "wf (measure (\<lambda>paths. sum_list (map length paths)))"
    by simp
  fix paths :: "string list list" and h
  assume "h \<in> set (firstOccurrences (\<lambda>h. h) (map hd (filter (\<lambda>path. path \<noteq> []) paths)))"
  moreover have "set (firstOccurrences (\<lambda>h. h) xs) \<subseteq> set xs" for xs :: "string list"
  proof (induction "\<lambda>h :: string. h" xs rule: firstOccurrences.induct)
    case 1
    show ?case by simp
  next
    case (2 x xs)
    then show ?case by auto
  qed
  ultimately have "h \<in> set (map hd (filter (\<lambda>path. path \<noteq> []) paths))"
    by blast
  then have "\<exists>path \<in> set paths. path \<noteq> [] \<and> hd path = h"
    by auto
  then have "sum_list (map length (below h paths)) < sum_list (map length paths)"
  proof (induction paths)
    case Nil
    then show ?case by simp
  next
    case (Cons p ps)
    have le: "sum_list (map length (below h qs)) \<le> sum_list (map length qs)" for qs
      by (induction qs) (auto simp: below_def)
    show ?case
    proof (cases "p \<noteq> [] \<and> hd p = h")
      case True
      with le [of ps] show ?thesis
        by (cases p) (auto simp: below_def)
    next
      case False
      with Cons have "sum_list (map length (below h ps)) < sum_list (map length ps)"
        by auto
      with False show ?thesis
        by (auto simp: below_def)
    qed
  qed
  then show "(below h paths, paths) \<in> measure (\<lambda>paths. sum_list (map length paths))"
    by simp
qed

declare forestOf.simps [simp del]

text \<open>A node whose descendants have distinct relation names among their siblings.\<close>

fun uniqueNode :: "Include \<Rightarrow> bool" where
  "uniqueNode (Include relation children) =
     (distinct (map Relation children) \<and> (\<forall>child \<in> set children. uniqueNode child))"

text \<open>The relation paths of all chains of the usable values of the \<open>include\<close> key, in order.\<close>

definition includePaths :: "Value list \<Rightarrow> string list list" where
  "includePaths vals =
     concat (map (\<lambda>val. map relationPath (includeChains (Value val))) (filter includable vals))"

text \<open>
  The invariant of the iteration of \<open>initIncludes\<close>: once the paths \<open>paths\<close> are
  processed, \<open>ordered\<close> is their forest and \<open>roots\<close> maps a relation name to the
  position of the root with this name.
\<close>

definition includeState ::
  "string list list \<Rightarrow> (string \<rightharpoonup> nat) \<times> Include list \<Rightarrow> bool" where
  "includeState paths st =
     (snd st = forestOf paths \<and> (\<forall>k. fst st k = findRelation (forestOf paths) k))"

section \<open>Properties of the delimiter normalizer\<close>

lemma removeLoop_append:
  "removeLoop cs rm (r1 @ r2) = r1 @ removeLoop cs rm r2"
  by (induction cs arbitrary: rm r2) simp_all

lemma removeLoop_acc: "removeLoop cs rm result = result @ removeLoop cs rm []"
  using removeLoop_append [of cs rm result "[]"] by simp

lemma removeLoop_fixed:
  "\<not> adjacentDelims (c # cs) \<Longrightarrow> removeLoop cs (c = delim) [] = cs"
proof (induction cs arbitrary: c)
  case Nil
  show ?case by simp
next
  case (Cons d cs)
  from Cons.prems have nd: "\<not> (c = delim \<and> d = delim)" and rest: "\<not> adjacentDelims (d # cs)"
    by simp_all
  from Cons.IH [OF rest] nd show ?case
    using removeLoop_acc [of cs "d = delim" "[d]"] by auto
qed

lemma removeLoop_no_adjacent:
  "\<not> adjacentDelims (c # removeLoop cs (c = delim) [])"
proof (induction cs arbitrary: c)
  case Nil
  show ?case by simp
next
  case (Cons d cs)
  show ?case
  proof (cases "d = delim \<and> c = delim")
    case True
    with Cons.IH [of c] show ?thesis by simp
  next
    case False
    with Cons.IH [of d] show ?thesis
      using removeLoop_acc [of cs "d = delim" "[d]"] by auto
  qed
qed

lemma removeLoop_run:
  "removeLoop (replicate n delim @ b) True result = removeLoop b True result"
  by (induction n) simp_all

lemma removeLoop_collapse:
  "removeLoop (a @ replicate (Suc n) delim @ b) rm result = removeLoop (a @ delim # b) rm result"
proof (induction a arbitrary: rm result)
  case Nil
  show ?case by (simp add: removeLoop_run)
next
  case (Cons c a)
  show ?case using Cons.IH by simp
qed

lemma removeLoop_filter:
  "filter (\<lambda>c. c \<noteq> delim) (removeLoop cs rm result) =
   filter (\<lambda>c. c \<noteq> delim) result @ filter (\<lambda>c. c \<noteq> delim) cs"
  by (induction cs arbitrary: rm result) simp_all

lemma removeExtraDelimiters_no_adjacent: "\<not> adjacentDelims (removeExtraDelimiters s)"
proof (cases s)
  case Nil
  then show ?thesis by (simp add: removeExtraDelimiters_def)
next
  case (Cons c cs)
  then show ?thesis
    using removeLoop_no_adjacent [of c cs] removeLoop_acc [of cs "c = delim" "[c]"]
    by (simp add: removeExtraDelimiters_def)
qed

lemma removeExtraDelimiters_fixed:
  "\<not> adjacentDelims s \<Longrightarrow> removeExtraDelimiters s = s"
proof (cases s)
  case Nil
  then show ?thesis by (simp add: removeExtraDelimiters_def)
next
  case (Cons c cs)
  assume "\<not> adjacentDelims s"
  with Cons show ?thesis
    using removeLoop_fixed [of c cs] removeLoop_acc [of cs "c = delim" "[c]"]
    by (simp add: removeExtraDelimiters_def)
qed

lemma removeExtraDelimiters_run:
  "removeExtraDelimiters (a @ replicate (Suc n) delim @ b) = removeExtraDelimiters (a @ delim # b)"
proof (cases a)
  case Nil
  then show ?thesis by (simp add: removeExtraDelimiters_def removeLoop_run)
next
  case (Cons c cs)
  then show ?thesis
    using removeLoop_collapse [of cs n b "c = delim" "[c]"]
    by (simp add: removeExtraDelimiters_def)
qed

lemma removeExtraDelimiters_filter:
  "filter (\<lambda>c. c \<noteq> delim) (removeExtraDelimiters s) = filter (\<lambda>c. c \<noteq> delim) s"
  by (cases s) (simp_all add: removeExtraDelimiters_def removeLoop_filter)

text \<open>
  Claim C9.  \<open>removeExtraDelimiters\<close> is idempotent and maps the empty string to the
  empty string.  It collapses every run of delimiters to one delimiter: a run of
  \<open>n + 1\<close> delimiters anywhere in the input gives the same result as a single
  delimiter there, the result has no two delimiters in a row, and an input without
  two delimiters in a row is returned as it is.  The bytes that are not delimiters
  are the same, in the same order, in the input and in the result.
\<close>

theorem removeExtraDelimiters_collapses_runs:
  "removeExtraDelimiters (removeExtraDelimiters s) = removeExtraDelimiters s
   \<and> removeExtraDelimiters [] = []
   \<and> removeExtraDelimiters (a @ replicate (Suc n) delim @ b) = removeExtraDelimiters (a @ delim # b)
   \<and> \<not> adjacentDelims (removeExtraDelimiters s)
   \<and> (\<not> adjacentDelims s \<longrightarrow> removeExtraDelimiters s = s)
   \<and> filter (\<lambda>c. c \<noteq> delim) (removeExtraDelimiters s) = filter (\<lambda>c. c \<noteq> delim) s"
proof -
  have "removeExtraDelimiters (removeExtraDelimiters s) = removeExtraDelimiters s"
    by (rule removeExtraDelimiters_fixed) (rule removeExtraDelimiters_no_adjacent)
  moreover have "removeExtraDelimiters [] = []"
    by (simp add: removeExtraDelimiters_def)
  ultimately show ?thesis
    using removeExtraDelimiters_run [of a n b] removeExtraDelimiters_no_adjacent [of s]
      removeExtraDelimiters_fixed [of s] removeExtraDelimiters_filter [of s]
    by blast
qed

theorem removeExtraDelimiters_collapses_runs_witness:
  "\<not> adjacentDelims ''/articles/1/''
   \<and> removeExtraDelimiters ''/articles/1/'' = ''/articles/1/''
   \<and> removeExtraDelimiters ''///articles//1//'' = ''/articles/1/''
   \<and> removeExtraDelimiters (removeExtraDelimiters ''///articles//1//'') = ''/articles/1/''"
proof -
  have n: "\<not> adjacentDelims ''/articles/1/''"
    by (simp add: delim_def)
  have e: "removeExtraDelimiters ''///articles//1//'' = ''/articles/1/''"
    by (simp add: removeExtraDelimiters_def delim_def)
  have f: "removeExtraDelimiters ''/articles/1/'' = ''/articles/1/''"
    using removeExtraDelimiters_collapses_runs [of "''/articles/1/''" "[]" 0 "[]"] n by blast
  from n e f show ?thesis by (simp only: simp_thms)
qed

section \<open>Properties of the bracket key extractor\<close>

text \<open>
  Claim C1.  The claim asks that every token that breaks the bracket grammar,
  an unclosed or trailing bracket included, comes back unchanged with \<open>nil\<close> nested
  keys, and that a success has at least one nested key.  The second loop of
  \<open>extractKeys\<close> does not look at \<open>opened\<close> when it runs off the end of the token:
  \<open>k[ab\<close> gives the top key \<open>k\<close> with an empty nested-key slice that is not \<open>nil\<close>,
  and \<open>k[a][b\<close> and \<open>k[a][\<close> give \<open>k\<close> with the partial list \<open>[a]\<close>.
\<close>

theorem extractKeys_unclosed_bracket:
  "extractKeys ''k[ab'' = (''k'', Some [])
   \<and> extractKeys ''k[a][b'' = (''k'', Some [''a''])
   \<and> extractKeys ''k[a]['' = (''k'', Some [''a''])"
  by (simp add: extractKeys_def openBracket_def closeBracket_def nestedKeyDefMin_def)

section \<open>Properties of the path segment classifier and of the assembler\<close>

lemma parsePath_decoded:
  assumes "PathUnescape path = Some decoded"
    and "removeExtraDelimiters decoded \<noteq> []"
    and "removeExtraDelimiters decoded \<noteq> ''/''"
  shows "parsePath path =
     (let requestParts = pathSegments decoded
      in if length requestParts = 1 then
           Inr \<lparr>Resource = \<lparr>Type = requestParts ! 0, ID = []\<rparr>, RelationshipType = [],
                RelatedResourceType = [], Query = None\<rparr>
         else if length requestParts = 2 then
           Inr \<lparr>Resource = \<lparr>Type = requestParts ! 0, ID = requestParts ! 1\<rparr>,
                RelationshipType = [], RelatedResourceType = [], Query = None\<rparr>
         else if length requestParts = 3 then
           Inr \<lparr>Resource = \<lparr>Type = requestParts ! 0, ID = requestParts ! 1\<rparr>,
                RelationshipType = [], RelatedResourceType = requestParts ! 2, Query = None\<rparr>
         else if length requestParts = 4 then
           (if requestParts ! 2 \<noteq> ''relationships''
            then Inl (PathFormatError ''relationships'' (requestParts ! 2))
            else Inr \<lparr>Resource = \<lparr>Type = requestParts ! 0, ID = requestParts ! 1\<rparr>,
                      RelationshipType = requestParts ! 3, RelatedResourceType = [], Query = None\<rparr>)
         else Inl (UnknownPathFormatError
                     (if hd (removeExtraDelimiters decoded) = CHR ''/''
                      then tl (removeExtraDelimiters decoded) else removeExtraDelimiters decoded)))"
proof -
  define p where "p = removeExtraDelimiters decoded"
  have p: "removeExtraDelimiters decoded = p"
    by (simp add: p_def)
  from assms(2,3) have ne: "p \<noteq> []" and nslash: "p \<noteq> ''/''"
    by (simp_all add: p_def)
  have hd0: "p ! 0 = hd p"
    using ne by (simp add: hd_conv_nth)
  have tl1: "drop (Suc 0) p = tl p"
    by (simp add: drop_Suc)
  have one: "(length p = Suc 0 \<and> hd p = CHR ''/'') = False"
    using ne nslash by (cases p) auto
  show ?thesis
    by (simp add: parsePath_def assms(1) p ne one hd0 tl1 Let_def pathSegments_def
          newRequest_def relationshipsRequest_def split del: if_split cong: if_cong)
qed

text \<open>
  Claim C2.  For a path that decodes and, once normalized, is neither empty nor a lone
  separator, \<open>parsePath\<close> returns the request of the segment-count table: with one
  segment only \<open>Resource.Type\<close> is set; with two, \<open>Type\<close> and \<open>ID\<close>; with three,
  \<open>Type\<close>, \<open>ID\<close> and \<open>RelatedResourceType\<close>; with four, segment 2 must be the literal
  \<open>relationships\<close>, and then \<open>Type\<close>, \<open>ID\<close> and \<open>RelationshipType\<close> (from segment 3)
  are set, otherwise the error names the literal and the segment received.  Every other
  field keeps its zero value.
\<close>

theorem parsePath_segment_table:
  assumes "PathUnescape path = Some decoded"
    and "removeExtraDelimiters decoded \<noteq> []"
    and "removeExtraDelimiters decoded \<noteq> ''/''"
    and "segs = pathSegments decoded"
  shows "(length segs = 1 \<longrightarrow>
           parsePath path =
             Inr \<lparr>Resource = \<lparr>Type = segs ! 0, ID = []\<rparr>, RelationshipType = [],
                  RelatedResourceType = [], Query = None\<rparr>)
       \<and> (length segs = 2 \<longrightarrow>
           parsePath path =
             Inr \<lparr>Resource = \<lparr>Type = segs ! 0, ID = segs ! 1\<rparr>, RelationshipType = [],
                  RelatedResourceType = [], Query = None\<rparr>)
       \<and> (length segs = 3 \<longrightarrow>
           parsePath path =
             Inr \<lparr>Resource = \<lparr>Type = segs ! 0, ID = segs ! 1\<rparr>, RelationshipType = [],
                  RelatedResourceType = segs ! 2, Query = None\<rparr>)
       \<and> (length segs = 4 \<and> segs ! 2 = ''relationships'' \<longrightarrow>
           parsePath path =
             Inr \<lparr>Resource = \<lparr>Type = segs ! 0, ID = segs ! 1\<rparr>, RelationshipType = segs ! 3,
                  RelatedResourceType = [], Query = None\<rparr>)
       \<and> (length segs = 4 \<and> segs ! 2 \<noteq> ''relationships'' \<longrightarrow>
           parsePath path = Inl (PathFormatError ''relationships'' (segs ! 2)))"
  using parsePath_decoded [OF assms(1,2,3)] assms(4) by (simp add: Let_def)


theorem parsePath_segment_table_witness:
  "PathUnescape ''/articles/1/relationships/comments'' = Some ''/articles/1/relationships/comments''
   \<and> pathSegments ''/articles/1/relationships/comments'' =
         [''articles'', ''1'', ''relationships'', ''comments'']
   \<and> parsePath ''/articles/1/relationships/comments'' =
         Inr \<lparr>Resource = \<lparr>Type = ''articles'', ID = ''1''\<rparr>, RelationshipType = ''comments'',
              RelatedResourceType = [], Query = None\<rparr>"
proof -
  have dec: "PathUnescape ''/articles/1/relationships/comments'' =
      Some ''/articles/1/relationships/comments''"
    by (simp add: PathUnescape_def)
  have norm: "removeExtraDelimiters ''/articles/1/relationships/comments'' =
      ''/articles/1/relationships/comments''"
    by (simp add: removeExtraDelimiters_def delim_def)
  have segs: "[''articles'', ''1'', ''relationships'', ''comments''] =
      pathSegments ''/articles/1/relationships/comments''"
    by (simp add: pathSegments_def norm)
  have ne: "removeExtraDelimiters ''/articles/1/relationships/comments'' \<noteq> []"
    and nslash: "removeExtraDelimiters ''/articles/1/relationships/comments'' \<noteq> ''/''"
    by (simp_all add: norm)
  from parsePath_segment_table [OF dec ne nslash segs] dec segs [symmetric]
  show ?thesis by simp
qed

lemma Split_not_Nil: "Split s c \<noteq> []"
  by (induction s) (auto split: list.splits)

lemma parsePath_error_iff:
  "(\<exists>err. parsePath path = Inl err) \<longleftrightarrow>
     (PathUnescape path = None
      \<or> (\<exists>decoded. PathUnescape path = Some decoded
            \<and> (removeExtraDelimiters decoded = []
               \<or> removeExtraDelimiters decoded = ''/''
               \<or> 4 < length (pathSegments decoded)
               \<or> length (pathSegments decoded) = 4
                  \<and> pathSegments decoded ! 2 \<noteq> ''relationships'')))"
proof (cases "PathUnescape path")
  case None
  then show ?thesis by (simp add: parsePath_def)
next
  case (Some decoded)
  show ?thesis
  proof (cases "removeExtraDelimiters decoded = [] \<or> removeExtraDelimiters decoded = ''/''")
    case True
    then have "parsePath path = Inl EmptyPathError"
      using Some by (auto simp: parsePath_def)
    with True Some show ?thesis by auto
  next
    case False
    then have ne: "removeExtraDelimiters decoded \<noteq> []"
      and nslash: "removeExtraDelimiters decoded \<noteq> ''/''"
      by simp_all
    have "0 < length (pathSegments decoded)"
      by (simp add: pathSegments_def Let_def Split_not_Nil)
    then have "length (pathSegments decoded) = 1 \<or> length (pathSegments decoded) = 2
        \<or> length (pathSegments decoded) = 3 \<or> length (pathSegments decoded) = 4
        \<or> 4 < length (pathSegments decoded)"
      by arith
    then show ?thesis
      using parsePath_decoded [OF Some ne nslash] Some False
      by (auto simp: Let_def)
  qed
qed

lemma ParseQuery_error_iff:
  "(\<exists>err. ParseQuery query = Inl err) \<longleftrightarrow> QueryUnescape query = None"
  by (cases "QueryUnescape query") (simp_all add: ParseQuery_def ParseValues_def)

text \<open>
  Claim C3.  \<open>ParseRequest\<close> returns an error exactly when the path or the query
  does not decode, the normalized path is empty or a lone separator, the path has
  more than four segments, or it has four and segment 2 is not \<open>relationships\<close>.
  \<open>ParseQuery\<close> returns an error exactly when the query does not decode: the five
  builders return plain values and add no failure.
\<close>

theorem ParseRequest_error_iff:
  "((\<exists>err. ParseRequest params = Inl err) \<longleftrightarrow>
      (PathUnescape (fst (split params CHR ''?'' True)) = None
       \<or> QueryUnescape (snd (split params CHR ''?'' True)) = None
       \<or> (\<exists>decoded. PathUnescape (fst (split params CHR ''?'' True)) = Some decoded
             \<and> (removeExtraDelimiters decoded = []
                \<or> removeExtraDelimiters decoded = ''/''
                \<or> 4 < length (pathSegments decoded)
                \<or> length (pathSegments decoded) = 4
                   \<and> pathSegments decoded ! 2 \<noteq> ''relationships''))))
   \<and> ((\<exists>err. ParseQuery query = Inl err) \<longleftrightarrow> QueryUnescape query = None)"
proof -
  obtain path q where sp: "split params CHR ''?'' True = (path, q)"
    by (cases "split params CHR ''?'' True")
  have "(\<exists>err. ParseRequest params = Inl err) \<longleftrightarrow>
          (\<exists>err. parsePath path = Inl err) \<or> (\<exists>err. ParseQuery q = Inl err)"
    by (cases "parsePath path"; cases "ParseQuery q") (simp_all add: ParseRequest_def sp)
  then show ?thesis
    using parsePath_error_iff [of path] ParseQuery_error_iff [of q] ParseQuery_error_iff [of query]
    by (auto simp: sp)
qed

theorem ParseRequest_error_iff_witness:
  "(\<exists>err. ParseRequest ''/resource/id/should_be_relationships/relationship_type'' = Inl err)
   \<and> \<not> (\<exists>err. ParseRequest ''/articles/42/comments?fields[comments]=author'' = Inl err)"
proof -
  let ?bad = "''/resource/id/should_be_relationships/relationship_type''"
  have sp1: "split ?bad CHR ''?'' True = (?bad, [])"
    by (simp add: split_def)
  have dec1: "PathUnescape ?bad = Some ?bad"
    by (simp add: PathUnescape_def)
  have norm1: "removeExtraDelimiters ?bad = ?bad"
    by (simp add: removeExtraDelimiters_def delim_def)
  have segs1: "pathSegments ?bad = [''resource'', ''id'', ''should_be_relationships'', ''relationship_type'']"
    by (simp add: pathSegments_def norm1)
  have bad: "\<exists>err. ParseRequest ?bad = Inl err"
    using ParseRequest_error_iff [of ?bad "[]"] by (simp add: sp1 dec1 norm1 segs1)
  let ?good = "''/articles/42/comments?fields[comments]=author''"
  have sp2: "split ?good CHR ''?'' True = (''/articles/42/comments'', ''fields[comments]=author'')"
    by (simp add: split_def)
  have dec2: "PathUnescape ''/articles/42/comments'' = Some ''/articles/42/comments''"
    by (simp add: PathUnescape_def)
  have norm2: "removeExtraDelimiters ''/articles/42/comments'' = ''/articles/42/comments''"
    by (simp add: removeExtraDelimiters_def delim_def)
  have segs2: "pathSegments ''/articles/42/comments'' = [''articles'', ''42'', ''comments'']"
    by (simp add: pathSegments_def norm2)
  have q2: "QueryUnescape ''fields[comments]=author'' = Some ''fields[comments]=author''"
    by (simp add: QueryUnescape_def)
  have good: "\<not> (\<exists>err. ParseRequest ?good = Inl err)"
    using ParseRequest_error_iff [of ?good "[]"] by (simp add: sp2 dec2 norm2 segs2 q2)
  from bad good show ?thesis by blast
qed

text \<open>
  Claim C10.  \<open>IsRelationshipRequest\<close> and \<open>IsRelatedResourceRequest\<close> return the same
  boolean for every request, namely whether \<open>RelatedResourceType\<close> is not empty.  A
  request that \<open>parsePath\<close> builds from a path of four segments has only
  \<open>RelationshipType\<close> set, so \<open>IsRelationshipRequest\<close> is false for it.
\<close>

theorem IsRelationshipRequest_same_as_related:
  "IsRelationshipRequest r = IsRelatedResourceRequest r
   \<and> IsRelationshipRequest r = (RelatedResourceType r \<noteq> [])
   \<and> (PathUnescape path = Some decoded \<and> length (pathSegments decoded) = 4
          \<and> parsePath path = Inr request
        \<longrightarrow> RelationshipType request = pathSegments decoded ! 3
            \<and> RelatedResourceType request = [] \<and> \<not> IsRelationshipRequest request)"
proof -
  have "RelationshipType request = pathSegments decoded ! 3
          \<and> RelatedResourceType request = [] \<and> \<not> IsRelationshipRequest request"
    if dec: "PathUnescape path = Some decoded" and four: "length (pathSegments decoded) = 4"
      and ok: "parsePath path = Inr request"
  proof -
    have "\<not> (removeExtraDelimiters decoded = [] \<or> removeExtraDelimiters decoded = ''/'')"
      using ok dec by (auto simp: parsePath_def)
    then have ne: "removeExtraDelimiters decoded \<noteq> []"
      and nslash: "removeExtraDelimiters decoded \<noteq> ''/''"
      by simp_all
    show ?thesis
      using parsePath_decoded [OF dec ne nslash] four ok
      by (auto simp: Let_def IsRelationshipRequest_def split: if_splits)
  qed
  then show ?thesis
    by (simp add: IsRelationshipRequest_def IsRelatedResourceRequest_def)
qed


theorem IsRelationshipRequest_same_as_related_witness:
  "PathUnescape ''/type/id/relationships/rel'' = Some ''/type/id/relationships/rel''
   \<and> length (pathSegments ''/type/id/relationships/rel'') = 4
   \<and> parsePath ''/type/id/relationships/rel'' =
         Inr \<lparr>Resource = \<lparr>Type = ''type'', ID = ''id''\<rparr>, RelationshipType = ''rel'',
              RelatedResourceType = [], Query = None\<rparr>
   \<and> \<not> IsRelationshipRequest
           \<lparr>Resource = \<lparr>Type = ''type'', ID = ''id''\<rparr>, RelationshipType = ''rel'',
            RelatedResourceType = [], Query = None\<rparr>"
proof -
  let ?path = "''/type/id/relationships/rel''"
  let ?request = "\<lparr>Resource = \<lparr>Type = ''type'', ID = ''id''\<rparr>, RelationshipType = ''rel'',
            RelatedResourceType = [], Query = None\<rparr>"
  have dec: "PathUnescape ?path = Some ?path"
    by (simp add: PathUnescape_def)
  have norm: "removeExtraDelimiters ?path = ?path"
    by (simp add: removeExtraDelimiters_def delim_def)
  have four: "length (pathSegments ?path) = 4"
    by (simp add: pathSegments_def norm)
  have ok: "parsePath ?path = Inr ?request"
    by (simp add: parsePath_def dec norm newRequest_def relationshipsRequest_def)
  have "\<not> IsRelationshipRequest ?request"
    using IsRelationshipRequest_same_as_related [of ?request ?path ?path ?request] dec four ok
    by blast
  with dec four ok show ?thesis by blast
qed

section \<open>Properties of the query tokenizer\<close>

lemma splitAny_cut:
  "splitAny q seps =
     (case IndexAny q seps of
        None \<Rightarrow> [q]
      | Some i \<Rightarrow> take i q # splitAny (drop (i + 1) q) seps)"
  by (induction q) (auto split: option.splits list.splits)

lemma fragments_cut:
  "query \<noteq> [] \<Longrightarrow>
   fragments query =
     (if fst (cutFragment query) = [] then [] else [fst (cutFragment query)])
       @ fragments (snd (cutFragment query))"
  unfolding fragments_def cutFragment_def
  by (subst splitAny_cut) (auto split: option.splits)

lemma fragments_Nil: "fragments [] = []"
  by (simp add: fragments_def)

lemma TopLevelKey_fragmentValue:
  "TopLevelKey (fragmentValue fragment) = fst (extractKeys (fst (keyValue fragment)))"
  by (simp add: fragmentValue_def)

lemma addFragment_lookup:
  "addFragment fragment values key =
     (if TopLevelKey (fragmentValue fragment) = key
      then Some ((case values key of None \<Rightarrow> [] | Some l \<Rightarrow> l) @ [fragmentValue fragment])
      else values key)"
  by (auto simp: addFragment_def fragmentValue_def Let_def split: prod.splits)

lemma parseLoop_lookup:
  "parseLoop query values key =
     (if valuesUnder key query = [] then values key
      else Some ((case values key of None \<Rightarrow> [] | Some l \<Rightarrow> l) @ valuesUnder key query))"
proof (induction query "values" rule: parseLoop.induct)
  case (1 query "values")
  let ?fragment = "fst (cutFragment query)"
  let ?rest = "snd (cutFragment query)"
  show ?case
  proof (cases "query = []")
    case True
    then show ?thesis
      by (subst parseLoop.simps) (simp add: valuesUnder_def fragments_Nil)
  next
    case False
    note ne = this
    show ?thesis
    proof (cases "?fragment = []")
      case True
      have vu: "valuesUnder key query = valuesUnder key ?rest"
        using fragments_cut [OF ne] True by (simp add: valuesUnder_def)
      have step: "parseLoop query values key = parseLoop ?rest values key"
        using ne True by (subst parseLoop.simps) simp
      show ?thesis
        unfolding step vu using "1.IH"(1) [OF ne True] .
    next
      case False
      have vu: "valuesUnder key query =
          (if TopLevelKey (fragmentValue ?fragment) = key then [fragmentValue ?fragment] else [])
          @ valuesUnder key ?rest"
        using fragments_cut [OF ne] False by (simp add: valuesUnder_def)
      have step: "parseLoop query values key
          = parseLoop ?rest (addFragment ?fragment values) key"
        using ne False by (subst parseLoop.simps) simp
      have IH: "parseLoop ?rest (addFragment ?fragment values) key =
          (if valuesUnder key ?rest = [] then addFragment ?fragment values key
           else Some ((case addFragment ?fragment values key of None \<Rightarrow> [] | Some l \<Rightarrow> l)
                        @ valuesUnder key ?rest))"
        using "1.IH"(2) [OF ne False] .
      show ?thesis
        unfolding step IH vu by (simp add: addFragment_lookup split: option.splits)
    qed
  qed
qed


lemma ParseValues_lookup:
  assumes "QueryUnescape query = Some decoded"
  shows "\<exists>values. ParseValues query = Inr values
           \<and> (\<forall>key. values key =
                 (let vs = valuesUnder key
                             (if decoded \<noteq> [] \<and> hd decoded = CHR ''?'' then tl decoded else decoded)
                  in if vs = [] then None else Some vs))"
proof -
  let ?q = "if decoded \<noteq> [] \<and> hd decoded = CHR ''?'' then tl decoded else decoded"
  have q: "(if decoded \<noteq> [] \<and> decoded ! 0 = CHR ''?'' then drop 1 decoded else decoded) = ?q"
    by (cases decoded) simp_all
  have a: "ParseValues query = Inr (parseLoop ?q Map.empty)"
    unfolding ParseValues_def assms option.case q ..
  have b: "\<forall>key. parseLoop ?q Map.empty key =
      (let vs = valuesUnder key ?q in if vs = [] then None else Some vs)"
    by (simp add: parseLoop_lookup Let_def)
  show ?thesis
    by (rule exI [where x = "parseLoop ?q Map.empty"]) (rule conjI [OF a b])
qed

text \<open>
  Claim C6.  \<open>ParseValues\<close> of the empty string is the empty multimap and no error.
  For every query string that decodes, \<open>ParseValues\<close> succeeds and the sequence it
  stores under a key is the sequence of the records of the fragments (of the decoded
  string, without its leading \<open>?\<close>) that have this top key, in the order in which the
  fragments occur in the string; a key with no fragment is absent.
\<close>

theorem ParseValues_occurrence_order:
  "ParseValues [] = Inr Map.empty
   \<and> (QueryUnescape query = Some decoded \<longrightarrow>
        (\<exists>values. ParseValues query = Inr values
           \<and> (\<forall>key. values key =
                 (let vs = valuesUnder key
                             (if decoded \<noteq> [] \<and> hd decoded = CHR ''?''
                              then tl decoded else decoded)
                  in if vs = [] then None else Some vs))))"
proof -
  have "ParseValues [] = Inr Map.empty"
    by (simp add: ParseValues_def QueryUnescape_def parseLoop.simps)
  then show ?thesis
    using ParseValues_lookup [of query decoded] by blast
qed

theorem ParseValues_occurrence_order_witness:
  "QueryUnescape ''key=v1&key=v2'' = Some ''key=v1&key=v2''
   \<and> (\<exists>values. ParseValues ''key=v1&key=v2'' = Inr values
         \<and> values ''key'' =
               Some [\<lparr>TopLevelKey = ''key'', NestedKeys = None, Value = ''v1''\<rparr>,
                     \<lparr>TopLevelKey = ''key'', NestedKeys = None, Value = ''v2''\<rparr>])"
proof -
  have dec: "QueryUnescape ''key=v1&key=v2'' = Some ''key=v1&key=v2''"
    by (simp add: QueryUnescape_def)
  have vu: "valuesUnder ''key'' ''key=v1&key=v2'' =
      [\<lparr>TopLevelKey = ''key'', NestedKeys = None, Value = ''v1''\<rparr>,
       \<lparr>TopLevelKey = ''key'', NestedKeys = None, Value = ''v2''\<rparr>]"
    by (simp add: valuesUnder_def fragments_def fragmentValue_def keyValue_def extractKeys_def
          openBracket_def closeBracket_def)
  from ParseValues_occurrence_order [of "''key=v1&key=v2''" "''key=v1&key=v2''"] dec
  obtain "values" where v: "ParseValues ''key=v1&key=v2'' = Inr values"
    and all: "\<forall>key. values key =
        (let vs = valuesUnder key
                    (if ''key=v1&key=v2'' \<noteq> [] \<and> hd ''key=v1&key=v2'' = CHR ''?''
                     then tl ''key=v1&key=v2'' else ''key=v1&key=v2'')
         in if vs = [] then None else Some vs)"
    by blast
  from all have "values ''key'' =
      Some [\<lparr>TopLevelKey = ''key'', NestedKeys = None, Value = ''v1''\<rparr>,
            \<lparr>TopLevelKey = ''key'', NestedKeys = None, Value = ''v2''\<rparr>]"
    by (simp add: vu)
  with dec v show ?thesis by blast
qed

text \<open>
  Claim C8.  Every record that \<open>ParseValues\<close> stores under a key \<open>K\<close> has
  \<open>TopLevelKey\<close> equal to \<open>K\<close>.
\<close>

theorem ParseValues_TopLevelKey:
  assumes "ParseValues query = Inr values"
    and "values key = Some vs"
    and "v \<in> set vs"
  shows "TopLevelKey v = key"
proof -
  obtain decoded where dec: "QueryUnescape query = Some decoded"
    using assms(1) by (cases "QueryUnescape query") (simp_all add: ParseValues_def)
  define q where "q = (if decoded \<noteq> [] \<and> hd decoded = CHR ''?'' then tl decoded else decoded)"
  from ParseValues_lookup [OF dec] assms(1)
  have "values key = (let vs = valuesUnder key q in if vs = [] then None else Some vs)"
    unfolding q_def by auto
  with assms(2) have "vs = valuesUnder key q"
    by (simp add: Let_def split: if_splits)
  with assms(3) show ?thesis
    by (simp add: valuesUnder_def)
qed

theorem ParseValues_TopLevelKey_witness:
  "\<exists>values. ParseValues ''page[size]=10&sort=a&page[number]=2'' = Inr values
      \<and> values ''page'' =
            Some [\<lparr>TopLevelKey = ''page'', NestedKeys = Some [''size''], Value = ''10''\<rparr>,
                  \<lparr>TopLevelKey = ''page'', NestedKeys = Some [''number''], Value = ''2''\<rparr>]
      \<and> TopLevelKey \<lparr>TopLevelKey = ''page'', NestedKeys = Some [''number''], Value = ''2''\<rparr>
            = ''page''"
proof -
  let ?query = "''page[size]=10&sort=a&page[number]=2''"
  let ?v1 = "\<lparr>TopLevelKey = ''page'', NestedKeys = Some [''size''], Value = ''10''\<rparr>"
  let ?v2 = "\<lparr>TopLevelKey = ''page'', NestedKeys = Some [''number''], Value = ''2''\<rparr>"
  have dec: "QueryUnescape ?query = Some ?query"
    by (simp add: QueryUnescape_def)
  have vu: "valuesUnder ''page'' ?query = [?v1, ?v2]"
    by (simp add: valuesUnder_def fragments_def fragmentValue_def keyValue_def extractKeys_def
          openBracket_def closeBracket_def nestedKeyDefMin_def)
  obtain "values" where v: "ParseValues ?query = Inr values"
    and page: "values ''page'' = Some [?v1, ?v2]"
    using ParseValues_lookup [OF dec] by (auto simp: vu)
  have "TopLevelKey ?v2 = ''page''"
    by (rule ParseValues_TopLevelKey [OF v page]) simp
  with v page show ?thesis by blast
qed

section \<open>First occurrences and splitting\<close>

lemma firstOccurrences_filter:
  "firstOccurrences key (filter (\<lambda>x. P (key x)) xs) =
   filter (\<lambda>x. P (key x)) (firstOccurrences key xs)"
proof (induction key xs rule: firstOccurrences.induct)
  case (1 key)
  show ?case by simp
next
  case (2 key x xs)
  have comm: "filter (\<lambda>y. key y \<noteq> key x) (filter (\<lambda>x. P (key x)) xs) =
      filter (\<lambda>x. P (key x)) (filter (\<lambda>y. key y \<noteq> key x) xs)"
    by (simp add: conj_commute)
  show ?case
  proof (cases "P (key x)")
    case True
    then show ?thesis using "2.IH" by (simp add: comm del: filter_filter)
  next
    case False
    then have "filter (\<lambda>x. P (key x)) xs =
        filter (\<lambda>x. P (key x)) (filter (\<lambda>y. key y \<noteq> key x) xs)"
      by (auto intro: filter_cong)
    with False show ?thesis using "2.IH" by simp
  qed
qed

lemma firstOccurrences_keys:
  "key ` set (firstOccurrences key xs) = key ` set xs"
proof (induction key xs rule: firstOccurrences.induct)
  case (1 key)
  show ?case by simp
next
  case (2 key x xs)
  then show ?case by auto
qed

lemma firstOccurrences_append:
  "firstOccurrences key (xs @ ys) =
   firstOccurrences key xs @ firstOccurrences key (filter (\<lambda>y. key y \<notin> key ` set xs) ys)"
proof (induction key xs arbitrary: ys rule: firstOccurrences.induct)
  case (1 key)
  show ?case by simp
next
  case (2 key x xs)
  have "filter (\<lambda>y. key y \<notin> key ` set (filter (\<lambda>y. key y \<noteq> key x) xs))
          (filter (\<lambda>y. key y \<noteq> key x) ys) =
        filter (\<lambda>y. key y \<notin> key ` set (x # xs)) ys"
    by (induction ys) auto
  then show ?case
    using "2.IH" [of "filter (\<lambda>y. key y \<noteq> key x) ys"] by (simp del: filter_filter)
qed

lemma firstOccurrences_distinct:
  "distinct (map key (firstOccurrences key xs))"
proof (induction key xs rule: firstOccurrences.induct)
  case (1 key)
  show ?case by simp
next
  case (2 key x xs)
  have "key x \<notin> key ` set (firstOccurrences key (filter (\<lambda>y. key y \<noteq> key x) xs))"
    unfolding firstOccurrences_keys by auto
  with "2.IH" show ?case by simp
qed

lemma bound_IndexByte: "IndexByte s c = Some i \<Longrightarrow> i < length s"
  by (induction s arbitrary: i) (auto split: if_splits)

lemma Split_cut:
  "Split s c =
     (case IndexByte s c of
        None \<Rightarrow> [s]
      | Some i \<Rightarrow> take i s # Split (drop (i + 1) s) c)"
  by (induction s) (auto split: option.splits list.splits)

lemma takeWhile_Split:
  "takeWhile (\<lambda>piece. piece \<noteq> []) (Split s c) =
   takeWhile (\<lambda>piece. piece \<noteq> [])
     (fst (split s c True) # Split (snd (split s c True)) c)"
  by (subst Split_cut) (simp add: split_def split: option.splits)


section \<open>Properties of the sort builder\<close>

lemma sortLoop_entries:
  "sortLoop cur rest (sorts, returnSort, duplicates) =
     (let new = firstOccurrences FieldName
                  (filter (\<lambda>e. FieldName e \<notin> duplicates)
                     (filter (\<lambda>e. FieldName e \<noteq> [])
                        (map sortEntry
                           (takeWhile (\<lambda>piece. piece \<noteq> []) (cur # Split rest sortDelimiter)))))
      in (sorts @ new, returnSort \<or> new \<noteq> [], duplicates \<union> FieldName ` set new))"
proof (induction cur rest "(sorts, returnSort, duplicates)"
    arbitrary: sorts returnSort duplicates rule: sortLoop.induct)
  case (1 cur rest)
  show ?case
  proof (cases "cur = []")
    case True
    then show ?thesis by (subst sortLoop.simps) simp
  next
    case False
    define order where "order = (if cur ! 0 = sortDescChar then OrderDesc else OrderAsc)"
    define name where "name = (if cur ! 0 = sortDescChar then drop 1 cur else cur)"
    define cur' where "cur' = fst (split rest sortDelimiter True)"
    define rest' where "rest' = snd (split rest sortDelimiter True)"
    define tail where "tail = filter (\<lambda>e. FieldName e \<noteq> [])
        (map sortEntry (takeWhile (\<lambda>piece. piece \<noteq> []) (cur' # Split rest' sortDelimiter)))"
    have entry: "sortEntry cur = \<lparr>FieldName = name, Order = order\<rparr>"
      using False by (cases cur) (auto simp: sortEntry_def name_def order_def sortDescChar_def)
    have pieces: "filter (\<lambda>e. FieldName e \<noteq> [])
        (map sortEntry (takeWhile (\<lambda>piece. piece \<noteq> []) (cur # Split rest sortDelimiter))) =
        (if name = [] then [] else [\<lparr>FieldName = name, Order = order\<rparr>]) @ tail"
      using False by (simp add: takeWhile_Split [of rest] entry tail_def cur'_def rest'_def)
    show ?thesis
    proof (cases "name \<in> duplicates")
      case True
      have "sortLoop cur rest (sorts, returnSort, duplicates) =
          sortLoop cur' rest' (sorts, returnSort, duplicates)"
        using False True
        by (subst sortLoop.simps) (simp add: Let_def name_def cur'_def rest'_def)
      also have "\<dots> = (let new = firstOccurrences FieldName (filter (\<lambda>e. FieldName e \<notin> duplicates) tail)
          in (sorts @ new, returnSort \<or> new \<noteq> [], duplicates \<union> FieldName ` set new))"
        unfolding tail_def
        by (rule "1.hyps"(1) [OF False order_def name_def cur'_def rest'_def])
           (use True in \<open>simp_all add: name_def\<close>)
      finally show ?thesis
        unfolding pieces using True by simp
    next
      case notdup: False
      show ?thesis
      proof (cases "name = []")
        case True
        have "sortLoop cur rest (sorts, returnSort, duplicates) =
            sortLoop cur' rest' (sorts, returnSort, duplicates)"
          using False True notdup
          by (subst sortLoop.simps) (simp add: Let_def name_def cur'_def rest'_def)
        also have "\<dots> = (let new = firstOccurrences FieldName (filter (\<lambda>e. FieldName e \<notin> duplicates) tail)
            in (sorts @ new, returnSort \<or> new \<noteq> [], duplicates \<union> FieldName ` set new))"
          unfolding tail_def
          by (rule "1.hyps"(2) [OF False order_def name_def cur'_def rest'_def])
             (use True notdup in \<open>simp_all add: name_def\<close>)
        finally show ?thesis
          unfolding pieces using True by simp
      next
        case nonempty: False
        have "sortLoop cur rest (sorts, returnSort, duplicates) =
            sortLoop cur' rest'
              (sorts @ [\<lparr>FieldName = name, Order = order\<rparr>], True, insert name duplicates)"
          using False nonempty notdup
          by (subst sortLoop.simps) (simp add: Let_def name_def order_def cur'_def rest'_def)
        also have "\<dots> =
            (let new = firstOccurrences FieldName
                         (filter (\<lambda>e. FieldName e \<notin> insert name duplicates) tail)
             in ((sorts @ [\<lparr>FieldName = name, Order = order\<rparr>]) @ new, True \<or> new \<noteq> [],
                 insert name duplicates \<union> FieldName ` set new))"
          using "1.hyps"(3) [OF False order_def name_def cur'_def rest'_def] nonempty notdup
          by (simp add: tail_def Let_def del: filter_filter)
        finally show ?thesis
          unfolding pieces using nonempty notdup
          by (simp add: Let_def conj_commute)
      qed
    qed
  qed
qed


lemma takeWhile_no_empty_piece:
  "[] \<notin> set pieces \<Longrightarrow> takeWhile (\<lambda>piece. piece \<noteq> []) pieces = pieces"
  by (auto simp: takeWhile_eq_all_conv)

lemma sortStep_entries:
  assumes "sortable val \<longrightarrow> [] \<notin> set (Split (Value val) CHR '','')"
  shows "sortStep val (sorts, returnSort, duplicates) =
     (let new = firstOccurrences FieldName
                  (filter (\<lambda>e. FieldName e \<notin> duplicates)
                     (if sortable val then sortEntries (Value val) else []))
      in (sorts @ new, returnSort \<or> new \<noteq> [], duplicates \<union> FieldName ` set new))"
proof (cases "sortable val")
  case True
  with assms have all: "takeWhile (\<lambda>piece. piece \<noteq> []) (Split (Value val) CHR '','') =
      Split (Value val) CHR '',''"
    by (simp add: takeWhile_no_empty_piece)
  have read: "takeWhile (\<lambda>piece. piece \<noteq> [])
        (fst (split (Value val) sortDelimiter True)
           # Split (snd (split (Value val) sortDelimiter True)) sortDelimiter) =
      Split (Value val) CHR '',''"
    by (simp only: sortDelimiter_def takeWhile_Split [symmetric] all)
  from True show ?thesis
    unfolding sortStep_def sortEntries_def sortLoop_entries read
    by (simp add: sortable_def)
next
  case False
  then show ?thesis
    by (auto simp: sortStep_def sortable_def)
qed

lemma sortValuesLoop_entries:
  assumes "\<forall>val \<in> set vals. sortable val \<longrightarrow> [] \<notin> set (Split (Value val) CHR '','')"
  shows "sortValuesLoop vals (sorts, returnSort, duplicates) =
     (let new = firstOccurrences FieldName
                  (filter (\<lambda>e. FieldName e \<notin> duplicates)
                     (concat (map (\<lambda>val. sortEntries (Value val)) (filter sortable vals))))
      in (sorts @ new, returnSort \<or> new \<noteq> [], duplicates \<union> FieldName ` set new))"
  using assms
proof (induction vals arbitrary: sorts returnSort duplicates)
  case Nil
  show ?case by simp
next
  case (Cons val vals)
  from Cons.prems have here_ok: "sortable val \<longrightarrow> [] \<notin> set (Split (Value val) CHR '','')"
    and later_ok: "\<forall>val \<in> set vals. sortable val \<longrightarrow> [] \<notin> set (Split (Value val) CHR '','')"
    by simp_all
  define here where "here = filter (\<lambda>e. FieldName e \<notin> duplicates)
      (if sortable val then sortEntries (Value val) else [])"
  define later where
    "later = concat (map (\<lambda>val. sortEntries (Value val)) (filter sortable vals))"
  define new1 where "new1 = firstOccurrences FieldName here"
  define new2 where "new2 = firstOccurrences FieldName
      (filter (\<lambda>e. FieldName e \<notin> duplicates \<union> FieldName ` set new1) later)"
  have step: "sortStep val (sorts, returnSort, duplicates) =
      (sorts @ new1, returnSort \<or> new1 \<noteq> [], duplicates \<union> FieldName ` set new1)"
    by (simp add: sortStep_entries [OF here_ok] Let_def new1_def here_def)
  have rest: "sortValuesLoop vals
        (sorts @ new1, returnSort \<or> new1 \<noteq> [], duplicates \<union> FieldName ` set new1) =
      ((sorts @ new1) @ new2, (returnSort \<or> new1 \<noteq> []) \<or> new2 \<noteq> [],
       (duplicates \<union> FieldName ` set new1) \<union> FieldName ` set new2)"
    unfolding Cons.IH [OF later_ok] Let_def new2_def later_def ..
  have "filter (\<lambda>e. FieldName e \<notin> duplicates)
          (concat (map (\<lambda>val. sortEntries (Value val)) (filter sortable (val # vals)))) =
        here @ filter (\<lambda>e. FieldName e \<notin> duplicates) later"
    by (simp add: here_def later_def)
  then have all: "firstOccurrences FieldName
        (filter (\<lambda>e. FieldName e \<notin> duplicates)
           (concat (map (\<lambda>val. sortEntries (Value val)) (filter sortable (val # vals))))) =
      new1 @ new2"
    by (simp add: firstOccurrences_append new1_def new2_def firstOccurrences_keys conj_commute)
  show ?case
    unfolding all Let_def sortValuesLoop.simps step rest by auto
qed

text \<open>
  When no usable value of the \<open>sort\<close> key has an empty piece between its commas, the
  result of \<open>initSort\<close> is the list of the sort entries of all usable values, in
  order, deduplicated by field name: an entry stays where its name first occurs, with
  the direction it has there.
\<close>

lemma initSort_without_empty_pieces:
  assumes "values sortKeyword = Some sortValues"
    and "\<forall>val \<in> set sortValues. sortable val \<longrightarrow> [] \<notin> set (Split (Value val) CHR '','')"
  shows "initSort values =
     (let entries = firstOccurrences FieldName
                      (concat (map (\<lambda>val. sortEntries (Value val)) (filter sortable sortValues)))
      in if entries = [] then None else Some entries)"
  by (simp add: initSort_def assms(1) sortValuesLoop_entries [OF assms(2)] Let_def)

text \<open>The example of the specification, on the code.\<close>

lemma initSort_example:
  "initSort [''sort'' \<mapsto>
       [\<lparr>TopLevelKey = ''sort'', NestedKeys = None,
          Value = ''createdAt,-title,duplicate,duplicate''\<rparr>,
        \<lparr>TopLevelKey = ''sort'', NestedKeys = None, Value = ''author,-duplicate''\<rparr>]] =
     Some [\<lparr>FieldName = ''createdAt'', Order = OrderAsc\<rparr>,
           \<lparr>FieldName = ''title'', Order = OrderDesc\<rparr>,
           \<lparr>FieldName = ''duplicate'', Order = OrderAsc\<rparr>,
           \<lparr>FieldName = ''author'', Order = OrderAsc\<rparr>]"
  by (simp add: initSort_def sortKeyword_def sortStep_def len_def split_def sortLoop.simps
        sortDelimiter_def sortDescChar_def Let_def)

text \<open>
  Claim C4.  The claim asks for deduplication by field name across all fields of
  all values of the \<open>sort\<close> key, the first occurrence keeping its place and its
  direction.  The inner loop of \<open>initSort\<close>, \<open>for cur != ""\<close>, ends at the first empty
  piece between the commas of a value, so the fields after it are never read: for
  the values \<open>a,,b\<close> and \<open>-b\<close> the field \<open>b\<close> first occurs ascending, in the first
  value, and the code returns it descending, from the second value.  The
  deduplication of all sort entries of the two values is \<open>a\<close> ascending, \<open>b\<close>
  ascending.
\<close>

theorem initSort_stops_at_empty_piece:
  "initSort [''sort'' \<mapsto>
       [\<lparr>TopLevelKey = ''sort'', NestedKeys = None, Value = ''a,,b''\<rparr>,
        \<lparr>TopLevelKey = ''sort'', NestedKeys = None, Value = ''-b''\<rparr>]] =
     Some [\<lparr>FieldName = ''a'', Order = OrderAsc\<rparr>, \<lparr>FieldName = ''b'', Order = OrderDesc\<rparr>]
   \<and> firstOccurrences FieldName (sortEntries ''a,,b'' @ sortEntries ''-b'') =
         [\<lparr>FieldName = ''a'', Order = OrderAsc\<rparr>, \<lparr>FieldName = ''b'', Order = OrderAsc\<rparr>]"
proof -
  have code: "initSort [''sort'' \<mapsto>
       [\<lparr>TopLevelKey = ''sort'', NestedKeys = None, Value = ''a,,b''\<rparr>,
        \<lparr>TopLevelKey = ''sort'', NestedKeys = None, Value = ''-b''\<rparr>]] =
     Some [\<lparr>FieldName = ''a'', Order = OrderAsc\<rparr>, \<lparr>FieldName = ''b'', Order = OrderDesc\<rparr>]"
    by (simp add: initSort_def sortKeyword_def sortStep_def len_def split_def sortLoop.simps
          sortDelimiter_def sortDescChar_def Let_def)
  have claimed: "firstOccurrences FieldName (sortEntries ''a,,b'' @ sortEntries ''-b'') =
         [\<lparr>FieldName = ''a'', Order = OrderAsc\<rparr>, \<lparr>FieldName = ''b'', Order = OrderAsc\<rparr>]"
    by (simp add: sortEntries_def sortEntry_def)
  from code claimed show ?thesis by (rule conjI)
qed

section \<open>Properties of the resource-fields builder\<close>

lemma appendUnique_first:
  "appendUnique list (toAppend, byResource) =
     (let new = firstOccurrences (\<lambda>item. item)
                  (filter (\<lambda>item. item \<notin> byResource) (filter (\<lambda>item. item \<noteq> []) list))
      in (toAppend @ new, byResource \<union> set new))"
proof (induction list arbitrary: toAppend byResource)
  case Nil
  show ?case by simp
next
  case (Cons item list)
  show ?case
  proof (cases "item = [] \<or> item \<in> byResource")
    case True
    then show ?thesis using Cons.IH [of toAppend byResource] by auto
  next
    case False
    have "filter (\<lambda>x. x \<notin> insert item byResource) (filter (\<lambda>item. item \<noteq> []) list) =
        filter (\<lambda>y. y \<noteq> item)
          (filter (\<lambda>item. item \<notin> byResource) (filter (\<lambda>item. item \<noteq> []) list))"
      by (induction list) auto
    with False show ?thesis
      using Cons.IH [of "toAppend @ [item]" "insert item byResource"]
      by (simp add: Let_def del: filter_filter)
  qed
qed

lemma len_one: "len keys = Suc 0 \<longleftrightarrow> (\<exists>k. keys = Some [k])"
  by (cases keys) (auto simp: len_def length_Suc_conv)

lemma firstOccurrences_set: "set (firstOccurrences (\<lambda>item. item) xs) = set xs"
  using firstOccurrences_keys [of "\<lambda>item. item" xs] by simp

lemma fieldsOf_snoc:
  "fieldsOf (vals @ [val]) resourceType =
     (if fieldsEntry resourceType val
      then fieldsOf vals resourceType
             @ firstOccurrences (\<lambda>item. item)
                 (filter (\<lambda>item. item \<notin> set (fieldsOf vals resourceType)) (fieldItems (Value val)))
      else fieldsOf vals resourceType)"
proof -
  have "set (fieldsOf vals resourceType) =
      set (concat (map (\<lambda>val. fieldItems (Value val)) (filter (fieldsEntry resourceType) vals)))"
    unfolding fieldsOf_def by (rule firstOccurrences_set)
  then show ?thesis
    by (simp add: fieldsOf_def firstOccurrences_append)
qed

lemma fieldsStep_state:
  assumes "fieldsState seen st"
  shows "fieldsState (seen @ [val]) (fieldsStep val st)"
proof -
  obtain resFields duplicates returnFields where st: "st = (resFields, duplicates, returnFields)"
    by (cases st)
  from assms have F: "\<And>t. resFields t = (if fieldsOf seen t = [] then None else Some (fieldsOf seen t))"
    and D: "\<And>t. (case duplicates t of None \<Rightarrow> {} | Some names \<Rightarrow> names) = set (fieldsOf seen t)"
    and R: "returnFields \<longleftrightarrow> (\<exists>t. fieldsOf seen t \<noteq> [])"
    by (simp_all add: fieldsState_def st)
  show ?thesis
  proof (cases "Value val = [] \<or> len (NestedKeys val) \<noteq> 1")
    case True
    then have "\<not> fieldsEntry t val" for t
      by (auto simp: fieldsEntry_def len_one)
    then have "fieldsOf (seen @ [val]) t = fieldsOf seen t" for t
      by (simp add: fieldsOf_snoc)
    with True assms show ?thesis
      by (simp add: fieldsStep_def fieldsState_def st)
  next
    case False
    then obtain rt where nk: "NestedKeys val = Some [rt]" and ne: "Value val \<noteq> []"
      by (auto simp: len_one)
    define new where "new = firstOccurrences (\<lambda>item. item)
        (filter (\<lambda>item. item \<notin> set (fieldsOf seen rt)) (fieldItems (Value val)))"
    have inner: "appendUnique (Split (Value val) fieldsDelimiter)
        ([], case duplicates rt of None \<Rightarrow> {} | Some names \<Rightarrow> names) =
        (new, set (fieldsOf seen rt) \<union> set new)"
      by (simp add: appendUnique_first D new_def fieldItems_def fieldsDelimiter_def Let_def)
    have other: "fieldsOf (seen @ [val]) t = fieldsOf seen t" if "t \<noteq> rt" for t
      using that by (simp add: fieldsOf_snoc fieldsEntry_def nk)
    have this_one: "fieldsOf (seen @ [val]) rt = fieldsOf seen rt @ new"
      by (simp add: fieldsOf_snoc fieldsEntry_def nk ne new_def)
    show ?thesis
    proof (cases "new = []")
      case True
      have step: "fieldsStep val st =
          (resFields, duplicates(rt \<mapsto> set (fieldsOf seen rt)), returnFields)"
        using False True by (simp add: fieldsStep_def st nk Let_def inner)
      have same: "fieldsOf (seen @ [val]) t = fieldsOf seen t" for t
        using other [of t] this_one True by (cases "t = rt") simp_all
      show ?thesis
        unfolding step fieldsState_def using F D R by (simp add: same)
    next
      case nonempty: False
      have step: "fieldsStep val st =
          (resFields(rt \<mapsto> fieldsOf seen rt @ new),
           duplicates(rt \<mapsto> set (fieldsOf seen rt) \<union> set new), True)"
        using False nonempty F [of rt]
        by (simp add: fieldsStep_def st nk Let_def inner split: option.splits)
      have ex: "\<exists>t. fieldsOf (seen @ [val]) t \<noteq> []"
        using this_one nonempty by (intro exI [of _ rt]) simp
      show ?thesis
        unfolding step fieldsState_def using F D nonempty ex
        by (simp add: other this_one)
    qed
  qed
qed

lemma fieldsLoop_state:
  "fieldsState seen st \<Longrightarrow> fieldsState (seen @ vals) (fieldsLoop vals st)"
proof (induction vals arbitrary: seen st)
  case Nil
  then show ?case by simp
next
  case (Cons val vals)
  from Cons.IH [OF fieldsStep_state [OF Cons.prems, of val]]
  show ?case by simp
qed

lemma fieldsState_initial: "fieldsState [] (Map.empty, Map.empty, False)"
  by (simp add: fieldsState_def fieldsOf_def)


lemma initResourceFields_state:
  assumes "values fieldsKeyword = Some vals"
  shows "\<exists>resFields duplicates returnFields.
           fieldsLoop vals (Map.empty, Map.empty, False) = (resFields, duplicates, returnFields)
           \<and> fieldsState vals (resFields, duplicates, returnFields)
           \<and> initResourceFields values = (if returnFields then Some resFields else None)"
proof -
  obtain resFields duplicates returnFields
    where run: "fieldsLoop vals (Map.empty, Map.empty, False) = (resFields, duplicates, returnFields)"
    by (cases "fieldsLoop vals (Map.empty, Map.empty, False)")
  have "fieldsState vals (resFields, duplicates, returnFields)"
    using fieldsLoop_state [OF fieldsState_initial, of vals] run by simp
  moreover have "initResourceFields values = (if returnFields then Some resFields else None)"
    by (simp add: initResourceFields_def assms run)
  ultimately show ?thesis using run by blast
qed

text \<open>
  Claim C7, amended.  The builder accepts an entry of the \<open>fields\<close> key when it has
  exactly one nested key and a value that is not empty; the value is not trimmed.
  The fields of a resource type are the names of its accepted entries, split at the
  commas, without the empty pieces and without the later occurrences of a name, in
  the order of first occurrence across all entries: a later entry for the same type
  appends its new names to the list.  A type with no field is absent from the map,
  and the map is \<open>nil\<close> when no type has a field.
\<close>

theorem initResourceFields_union:
  "(values fieldsKeyword = None \<longrightarrow> initResourceFields values = None)
   \<and> (values fieldsKeyword = Some vals \<longrightarrow>
        (initResourceFields values = None \<longleftrightarrow> (\<forall>t. fieldsOf vals t = []))
        \<and> (initResourceFields values = Some resFields \<longrightarrow>
             resFields resourceType =
               (if fieldsOf vals resourceType = [] then None
                else Some (fieldsOf vals resourceType))))
   \<and> distinct (fieldsOf vals resourceType)
   \<and> fieldsOf (vals @ [val]) resourceType =
         (if fieldsEntry resourceType val
          then fieldsOf vals resourceType
                 @ firstOccurrences (\<lambda>item. item)
                     (filter (\<lambda>item. item \<notin> set (fieldsOf vals resourceType))
                        (fieldItems (Value val)))
          else fieldsOf vals resourceType)"
proof -
  have absent: "initResourceFields values = None" if "values fieldsKeyword = None"
    using that by (simp add: initResourceFields_def)
  have present: "(initResourceFields values = None \<longleftrightarrow> (\<forall>t. fieldsOf vals t = []))
      \<and> (initResourceFields values = Some resFields \<longrightarrow>
             resFields resourceType =
               (if fieldsOf vals resourceType = [] then None
                else Some (fieldsOf vals resourceType)))"
    if "values fieldsKeyword = Some vals"
  proof -
    from initResourceFields_state [of "values" vals] that
    obtain fs duplicates returnFields
      where state: "fieldsState vals (fs, duplicates, returnFields)"
        and result: "initResourceFields values = (if returnFields then Some fs else None)"
      by blast
    from state have F: "fs resourceType =
        (if fieldsOf vals resourceType = [] then None else Some (fieldsOf vals resourceType))"
      and R: "returnFields \<longleftrightarrow> (\<exists>t. fieldsOf vals t \<noteq> [])"
      by (simp_all add: fieldsState_def)
    show ?thesis
      using result F R by (cases returnFields) auto
  qed
  have unique: "distinct (fieldsOf vals resourceType)"
    using firstOccurrences_distinct [of "\<lambda>item. item"] by (simp add: fieldsOf_def)
  from absent present unique fieldsOf_snoc [of vals val resourceType]
  show ?thesis by blast
qed

theorem initResourceFields_union_witness:
  "\<exists>resFields.
     initResourceFields
       [''fields'' \<mapsto>
          [\<lparr>TopLevelKey = ''fields'', NestedKeys = Some [''articles''], Value = ''title,body''\<rparr>,
           \<lparr>TopLevelKey = ''fields'', NestedKeys = None, Value = ''ignored''\<rparr>,
           \<lparr>TopLevelKey = ''fields'', NestedKeys = Some [''articles''], Value = ''body,,id''\<rparr>]]
       = Some resFields
     \<and> resFields ''articles'' = Some [''title'', ''body'', ''id'']
     \<and> resFields ''people'' = None"
proof -
  let ?vals = "[\<lparr>TopLevelKey = ''fields'', NestedKeys = Some [''articles''], Value = ''title,body''\<rparr>,
           \<lparr>TopLevelKey = ''fields'', NestedKeys = None, Value = ''ignored''\<rparr>,
           \<lparr>TopLevelKey = ''fields'', NestedKeys = Some [''articles''], Value = ''body,,id''\<rparr>]"
  let ?input = "[''fields'' \<mapsto> ?vals]"
  have given: "?input fieldsKeyword = Some ?vals"
    by (simp add: fieldsKeyword_def)
  have articles: "fieldsOf ?vals ''articles'' = [''title'', ''body'', ''id'']"
    by (simp add: fieldsOf_def fieldsEntry_def fieldItems_def)
  have people: "fieldsOf ?vals ''people'' = []"
    by (simp add: fieldsOf_def fieldsEntry_def fieldItems_def)
  have "initResourceFields ?input \<noteq> None"
    using initResourceFields_union [of ?input ?vals] given articles by fastforce
  then obtain resFields where some: "initResourceFields ?input = Some resFields"
    by blast
  have "resFields ''articles'' = Some [''title'', ''body'', ''id'']"
    using initResourceFields_union [of ?input ?vals resFields "''articles''"] given some articles
    by simp
  moreover have "resFields ''people'' = None"
    using initResourceFields_union [of ?input ?vals resFields "''people''"] given some people
    by simp
  ultimately show ?thesis using some by blast
qed

text \<open>
  Claim C7 as stated fails: a value of one space is empty after trimming, and the
  builder accepts it and reports the field name of one space.
\<close>

theorem initResourceFields_untrimmed_counterexample:
  "trimSpace '' '' = []
   \<and> (\<exists>resFields.
         initResourceFields
           [''fields'' \<mapsto>
              [\<lparr>TopLevelKey = ''fields'', NestedKeys = Some [''articles''], Value = '' ''\<rparr>]]
           = Some resFields
         \<and> resFields ''articles'' = Some ['' ''])"
proof -
  have "trimSpace '' '' = []"
    by (simp add: trimSpace_def isSpace_def)
  moreover have "initResourceFields
           [''fields'' \<mapsto>
              [\<lparr>TopLevelKey = ''fields'', NestedKeys = Some [''articles''], Value = '' ''\<rparr>]]
           = Some [''articles'' \<mapsto> ['' '']]"
    by (simp add: initResourceFields_def fieldsKeyword_def fieldsStep_def len_def
          fieldsDelimiter_def Let_def)
  ultimately show ?thesis by simp
qed

section \<open>Properties of the include-tree builder\<close>

text \<open>The roots of a forest of paths.\<close>

lemma forestOf_relations:
  "map Relation (forestOf paths) =
   firstOccurrences (\<lambda>h. h) (map hd (filter (\<lambda>path. path \<noteq> []) paths))"
  by (subst forestOf.simps) (simp add: comp_def)

lemma forestOf_length:
  "length (forestOf paths) =
   length (firstOccurrences (\<lambda>h. h) (map hd (filter (\<lambda>path. path \<noteq> []) paths)))"
  using forestOf_relations [of paths, THEN arg_cong, of length] by simp

lemma forestOf_nth:
  assumes "i < length (forestOf paths)"
  shows "forestOf paths ! i =
     Include (map Relation (forestOf paths) ! i)
       (forestOf (below (map Relation (forestOf paths) ! i) paths))"
proof -
  let ?heads = "firstOccurrences (\<lambda>h. h) (map hd (filter (\<lambda>path. path \<noteq> []) paths))"
  from assms have i: "i < length ?heads"
    by (simp add: forestOf_length)
  have "forestOf paths ! i = Include (?heads ! i) (forestOf (below (?heads ! i) paths))"
    by (subst forestOf.simps) (simp add: i)
  then show ?thesis
    by (simp add: forestOf_relations)
qed

lemma forestOf_Nil: "forestOf [] = []"
  by (subst forestOf.simps) simp

lemma findRelation_None:
  "findRelation nodes c = None \<longleftrightarrow> c \<notin> set (map Relation nodes)"
  by (induction nodes) auto

lemma findRelation_Some:
  "findRelation nodes c = Some i \<Longrightarrow> i < length nodes \<and> map Relation nodes ! i = c"
  by (induction nodes arbitrary: i) (auto split: if_splits)

lemma findRelation_relations:
  "map Relation xs = map Relation ys \<Longrightarrow> findRelation xs c = findRelation ys c"
proof (induction xs arbitrary: ys)
  case Nil
  then show ?case by simp
next
  case (Cons x xs)
  then obtain y ys' where ys: "ys = y # ys'"
    by (cases ys) auto
  with Cons.prems Cons.IH [of ys'] show ?case by simp
qed

lemma findRelation_snoc:
  "findRelation (xs @ [n]) c =
     (case findRelation xs c of
        Some i \<Rightarrow> Some i
      | None \<Rightarrow> if Relation n = c then Some (length xs) else None)"
  by (induction xs) (auto split: option.splits)

lemma below_snoc:
  "below h (paths @ [c # t]) = below h paths @ (if h = c then [t] else [])"
  by (simp add: below_def)

lemma below_snoc_empty: "below h (paths @ [[]]) = below h paths"
  by (simp add: below_def)

lemma below_absent:
  assumes "c \<notin> set (map Relation (forestOf paths))"
  shows "below c paths = []"
proof -
  from assms have "c \<notin> hd ` set (filter (\<lambda>path. path \<noteq> []) paths)"
    by (simp add: forestOf_relations firstOccurrences_set)
  then have "filter (\<lambda>path. path \<noteq> [] \<and> hd path = c) paths = []"
    by (auto simp: filter_empty_conv)
  then show ?thesis
    by (simp add: below_def)
qed

lemma relations_snoc:
  "map Relation (forestOf (paths @ [c # t])) =
   map Relation (forestOf paths)
     @ (if c \<in> set (map Relation (forestOf paths)) then [] else [c])"
  unfolding forestOf_relations
  by (simp add: firstOccurrences_append firstOccurrences_set)

lemma forestOf_snoc_empty: "forestOf (paths @ [[]]) = forestOf paths"
  by (subst forestOf.simps, subst (2) forestOf.simps) (simp add: below_snoc_empty)

lemma forestOf_snoc_new:
  assumes "c \<notin> set (map Relation (forestOf paths))"
  shows "forestOf (paths @ [c # t]) = forestOf paths @ [Include c (forestOf [t])]"
proof -
  let ?heads = "firstOccurrences (\<lambda>h. h) (map hd (filter (\<lambda>path. path \<noteq> []) paths))"
  have heads: "map Relation (forestOf paths) = ?heads"
    by (rule forestOf_relations)
  have new: "firstOccurrences (\<lambda>h. h) (map hd (filter (\<lambda>path. path \<noteq> []) (paths @ [c # t])))
      = ?heads @ [c]"
    using relations_snoc [of paths c t] assms by (simp add: forestOf_relations)
  have old: "forestOf (below h (paths @ [c # t])) = forestOf (below h paths)" if "h \<in> set ?heads" for h
    using that assms by (auto simp: below_snoc heads)
  have "forestOf (paths @ [c # t]) =
      map (\<lambda>h. Include h (forestOf (below h (paths @ [c # t])))) (?heads @ [c])"
    by (subst forestOf.simps) (simp only: new)
  also have "\<dots> = map (\<lambda>h. Include h (forestOf (below h paths))) ?heads
      @ [Include c (forestOf (below c paths @ [t]))]"
    using old by (simp add: below_snoc)
  also have "map (\<lambda>h. Include h (forestOf (below h paths))) ?heads = forestOf paths"
    by (subst (2) forestOf.simps) simp
  finally show ?thesis
    by (simp add: below_absent [OF assms])
qed

lemma forestOf_snoc_old:
  assumes "i < length (forestOf paths)" and "map Relation (forestOf paths) ! i = c"
  shows "forestOf (paths @ [c # t]) =
     (forestOf paths)[i := Include c (forestOf (below c paths @ [t]))]"
proof (rule nth_equalityI)
  have mem: "c \<in> set (map Relation (forestOf paths))"
    using assms by (metis length_map nth_mem)
  then have same: "map Relation (forestOf (paths @ [c # t])) = map Relation (forestOf paths)"
    by (simp add: relations_snoc)
  then show len: "length (forestOf (paths @ [c # t])) =
      length ((forestOf paths)[i := Include c (forestOf (below c paths @ [t]))])"
    using map_eq_imp_length_eq [OF same] by simp
  fix j
  assume "j < length (forestOf (paths @ [c # t]))"
  with len have j: "j < length (forestOf paths)" and j': "j < length (forestOf (paths @ [c # t]))"
    by simp_all
  have dist: "distinct (map Relation (forestOf paths))"
    unfolding forestOf_relations using firstOccurrences_distinct [of "\<lambda>h. h"] by simp
  define r where "r = map Relation (forestOf paths) ! j"
  have r1: "map Relation (forestOf (paths @ [c # t])) ! j = r"
    by (simp only: same r_def)
  have new: "forestOf (paths @ [c # t]) ! j = Include r (forestOf (below r (paths @ [c # t])))"
    using forestOf_nth [OF j'] unfolding r1 .
  have old: "forestOf paths ! j = Include r (forestOf (below r paths))"
    using forestOf_nth [OF j] unfolding r_def .
  show "forestOf (paths @ [c # t]) ! j =
      (forestOf paths)[i := Include c (forestOf (below c paths @ [t]))] ! j"
  proof (cases "j = i")
    case True
    with assms(2) have "r = c"
      by (simp only: r_def)
    with True j show ?thesis
      unfolding new by (simp add: below_snoc)
  next
    case False
    with dist assms j have "r \<noteq> c"
      unfolding r_def by (metis length_map nth_eq_iff_index_eq)
    with False show ?thesis
      unfolding new by (simp add: below_snoc old)
  qed
qed

lemma relationPath_Nil: "relationPath [] = []"
  by (simp add: relationPath_def)

lemma relationPath_cut:
  assumes "q \<noteq> []"
  shows "relationPath q =
     fst (split q CHR ''.'' True) # relationPath (snd (split q CHR ''.'' True))"
proof (cases "IndexByte q CHR ''.''")
  case None
  with assms show ?thesis
    by (simp add: relationPath_def Split_cut [of q] split_def)
next
  case (Some i)
  then show ?thesis
    using Split_not_Nil [of "drop (Suc i) q" "CHR ''.''"]
    by (simp add: relationPath_def Split_cut [of q] split_def Let_def)
qed


lemma expandInclude_forest:
  "root = Include r (forestOf paths) \<Longrightarrow>
   expandInclude root queryPart = Include r (forestOf (paths @ [relationPath queryPart]))"
proof (induction root queryPart arbitrary: r paths rule: expandInclude.induct)
  case (1 root queryPart)
  note root = "1.prems"
  show ?case
  proof (cases "queryPart = []")
    case True
    then show ?thesis
      by (subst expandInclude.simps) (simp add: root relationPath_Nil forestOf_snoc_empty)
  next
    case False
    define cur where "cur = fst (split queryPart nestedRelationDelimiter True)"
    define rest where "rest = snd (split queryPart nestedRelationDelimiter True)"
    have path: "relationPath queryPart = cur # relationPath rest"
      using relationPath_cut [OF False] by (simp add: cur_def rest_def nestedRelationDelimiter_def)
    have leaf: "Include cur [] = Include cur (forestOf [])"
      by (simp add: forestOf_Nil)
    show ?thesis
    proof (cases "Include.Includes root = []")
      case True
      then have empty: "forestOf paths = []"
        by (simp add: root)
      have "expandInclude root queryPart =
          Include (Relation root) [expandInclude (Include cur []) rest]"
        using False True by (subst expandInclude.simps) (simp add: Let_def cur_def rest_def)
      also have "expandInclude (Include cur []) rest =
          Include cur (forestOf ([] @ [relationPath rest]))"
        by (rule "1.IH"(1) [OF False cur_def rest_def True leaf])
      finally show ?thesis
        using forestOf_snoc_new [of cur paths "relationPath rest"]
        by (simp add: root path empty)
    next
      case nonempty: False
      show ?thesis
      proof (cases "findRelation (Include.Includes root) cur")
        case None
        then have absent: "cur \<notin> set (map Relation (forestOf paths))"
          by (simp add: findRelation_None root)
        have "expandInclude root queryPart =
            Include (Relation root)
              (Include.Includes root @ [expandInclude (Include cur []) rest])"
          using False nonempty None
          by (subst expandInclude.simps) (simp add: Let_def cur_def rest_def)
        also have "expandInclude (Include cur []) rest =
            Include cur (forestOf ([] @ [relationPath rest]))"
          by (rule "1.IH"(2) [OF False cur_def rest_def nonempty None leaf])
        finally show ?thesis
          using forestOf_snoc_new [OF absent, of "relationPath rest"]
          by (simp add: root path)
      next
        case (Some i)
        from findRelation_Some [OF Some]
        have i: "i < length (forestOf paths)" and at: "map Relation (forestOf paths) ! i = cur"
          by (simp_all add: root)
        have node: "Include.Includes root ! i = Include cur (forestOf (below cur paths))"
          using forestOf_nth [OF i] unfolding at by (simp add: root)
        have "expandInclude root queryPart =
            Include (Relation root)
              ((Include.Includes root)[i := expandInclude (Include.Includes root ! i) rest])"
          using False nonempty Some
          by (subst expandInclude.simps) (simp add: Let_def cur_def rest_def)
        also have "expandInclude (Include.Includes root ! i) rest =
            Include cur (forestOf (below cur paths @ [relationPath rest]))"
          by (rule "1.IH"(3) [OF False cur_def rest_def nonempty Some node])
        finally show ?thesis
          using forestOf_snoc_old [OF i at, of "relationPath rest"]
          by (simp add: root path)
      qed
    qed
  qed
qed

lemma include_chain:
  assumes "cur \<noteq> []"
    and "snd st = forestOf paths"
    and "\<And>k. fst st k = findRelation (forestOf paths) k"
  defines "rootKey \<equiv> fst (split cur nestedRelationDelimiter True)"
    and "next \<equiv> snd (split cur nestedRelationDelimiter True)"
  defines "st' \<equiv>
     (case fst st rootKey of
        None \<Rightarrow>
          ((fst st)(rootKey \<mapsto> length (snd st)),
           snd st @ [expandInclude (Include rootKey []) next])
      | Some existingRoot \<Rightarrow>
          (fst st, (snd st)[existingRoot := expandInclude (snd st ! existingRoot) next]))"
  shows "snd st' = forestOf (paths @ [relationPath cur])
    \<and> (\<forall>k. fst st' k = findRelation (forestOf (paths @ [relationPath cur])) k)"
proof -
  have path: "relationPath cur = rootKey # relationPath next"
    using relationPath_cut [OF assms(1)]
    by (simp add: rootKey_def next_def nestedRelationDelimiter_def)
  have leaf: "Include rootKey [] = Include rootKey (forestOf [])"
    by (simp add: forestOf_Nil)
  show ?thesis
  proof (cases "findRelation (forestOf paths) rootKey")
    case None
    then have absent: "rootKey \<notin> set (map Relation (forestOf paths))"
      by (simp add: findRelation_None)
    have new: "forestOf (paths @ [relationPath cur]) =
        forestOf paths @ [Include rootKey (forestOf [relationPath next])]"
      unfolding path by (rule forestOf_snoc_new [OF absent])
    have st': "st' = ((fst st)(rootKey \<mapsto> length (forestOf paths)),
        forestOf paths @ [Include rootKey (forestOf [relationPath next])])"
      using None expandInclude_forest [OF leaf, of "next"]
      by (simp add: st'_def assms(2,3))
    show ?thesis
      using None by (simp add: st' new findRelation_snoc assms(3) split: option.splits)
  next
    case (Some i)
    from findRelation_Some [OF Some]
    have i: "i < length (forestOf paths)" and at: "map Relation (forestOf paths) ! i = rootKey"
      by simp_all
    have node: "forestOf paths ! i = Include rootKey (forestOf (below rootKey paths))"
      using forestOf_nth [OF i] unfolding at .
    have new: "forestOf (paths @ [relationPath cur]) =
        (forestOf paths)[i := Include rootKey (forestOf (below rootKey paths @ [relationPath next]))]"
      unfolding path by (rule forestOf_snoc_old [OF i at])
    have st': "st' = (fst st,
        (forestOf paths)[i := Include rootKey (forestOf (below rootKey paths @ [relationPath next]))])"
      using Some expandInclude_forest [OF node, of "next"]
      by (simp add: st'_def assms(2,3))
    have "rootKey \<in> set (map Relation (forestOf paths))"
      using i at by (metis length_map nth_mem)
    then have "map Relation (forestOf (paths @ [relationPath cur])) = map Relation (forestOf paths)"
      unfolding path by (simp add: relations_snoc)
    from findRelation_relations [OF this]
    show ?thesis
      by (simp add: st' new [symmetric] assms(3))
  qed
qed


lemma includeLoop_state:
  "includeState paths st \<Longrightarrow>
   includeState
     (paths @ map relationPath
                (takeWhile (\<lambda>chain. chain \<noteq> []) (cur # Split rest relationDelimiter)))
     (includeLoop cur rest st)"
proof (induction cur rest st arbitrary: paths rule: includeLoop.induct)
  case (1 cur rest st)
  show ?case
  proof (cases "cur = []")
    case True
    then show ?thesis
      using "1.prems" by (subst includeLoop.simps) simp
  next
    case False
    define rootKey where "rootKey = fst (split cur nestedRelationDelimiter True)"
    define "next" where "next = snd (split cur nestedRelationDelimiter True)"
    define st' where "st' =
       (case fst st rootKey of
          None \<Rightarrow>
            ((fst st)(rootKey \<mapsto> length (snd st)),
             snd st @ [expandInclude (Include rootKey []) next])
        | Some existingRoot \<Rightarrow>
            (fst st, (snd st)[existingRoot := expandInclude (snd st ! existingRoot) next]))"
    from "1.prems" have ordered: "snd st = forestOf paths"
      and roots: "\<And>k. fst st k = findRelation (forestOf paths) k"
      by (simp_all add: includeState_def)
    have "includeState (paths @ [relationPath cur]) st'"
      using include_chain [OF False ordered roots]
      unfolding includeState_def st'_def rootKey_def next_def by simp
    from "1.IH" [OF False rootKey_def next_def st'_def this]
    have "includeState
        ((paths @ [relationPath cur]) @ map relationPath
           (takeWhile (\<lambda>chain. chain \<noteq> [])
              (fst (split rest relationDelimiter True)
                 # Split (snd (split rest relationDelimiter True)) relationDelimiter)))
        (includeLoop (fst (split rest relationDelimiter True))
           (snd (split rest relationDelimiter True)) st')" .
    moreover have "includeLoop cur rest st =
        includeLoop (fst (split rest relationDelimiter True))
          (snd (split rest relationDelimiter True)) st'"
      unfolding st'_def rootKey_def next_def using False
      by (subst includeLoop.simps) (simp add: Let_def)
    ultimately show ?thesis
      using False by (simp add: takeWhile_Split [of rest])
  qed
qed

lemma includeStep_state:
  assumes "includeState paths st"
    and "includable val \<longrightarrow> [] \<notin> set (Split (Value val) CHR '','')"
  shows "includeState
     (paths @ (if includable val then map relationPath (includeChains (Value val)) else []))
     (includeStep val st)"
proof (cases "includable val")
  case True
  with assms(2) have all: "takeWhile (\<lambda>chain. chain \<noteq> []) (Split (Value val) CHR '','') =
      Split (Value val) CHR '',''"
    by (simp add: takeWhile_no_empty_piece)
  have read: "takeWhile (\<lambda>chain. chain \<noteq> [])
        (fst (split (Value val) relationDelimiter True)
           # Split (snd (split (Value val) relationDelimiter True)) relationDelimiter) =
      Split (Value val) CHR '',''"
    by (simp only: relationDelimiter_def takeWhile_Split [symmetric] all)
  from True show ?thesis
    using includeLoop_state [OF assms(1),
        of "fst (split (Value val) relationDelimiter True)"
           "snd (split (Value val) relationDelimiter True)"]
    unfolding read
    by (simp add: includeStep_def includable_def includeChains_def)
next
  case False
  then show ?thesis
    using assms(1) by (auto simp: includeStep_def includable_def)
qed

lemma includeValuesLoop_state:
  assumes "includeState paths st"
    and "\<forall>val \<in> set vals. includable val \<longrightarrow> [] \<notin> set (Split (Value val) CHR '','')"
  shows "includeState (paths @ includePaths vals) (includeValuesLoop vals st)"
  using assms
proof (induction vals arbitrary: paths st)
  case Nil
  then show ?case by (simp add: includePaths_def)
next
  case (Cons val vals)
  from Cons.prems(2) have here_ok: "includable val \<longrightarrow> [] \<notin> set (Split (Value val) CHR '','')"
    and later_ok: "\<forall>val \<in> set vals. includable val \<longrightarrow> [] \<notin> set (Split (Value val) CHR '','')"
    by simp_all
  from Cons.IH [OF includeStep_state [OF Cons.prems(1) here_ok] later_ok]
  show ?case by (cases "includable val") (simp_all add: includePaths_def)
qed

text \<open>
  When no usable value of the \<open>include\<close> key has an empty piece between its commas,
  the result of \<open>initIncludes\<close> is the forest of the relation paths of all chains of
  all usable values, whatever value a chain comes from: one node for every relation
  name at each level, the roots and the children of each node in the order of first
  appearance.
\<close>

lemma initIncludes_without_empty_pieces:
  assumes "values includeKeyword = Some incValues"
    and "\<forall>val \<in> set incValues. includable val \<longrightarrow> [] \<notin> set (Split (Value val) CHR '','')"
  shows "initIncludes values = Some (forestOf (includePaths incValues))"
proof -
  have "includeState [] (Map.empty, [])"
    by (simp add: includeState_def forestOf_Nil)
  from includeValuesLoop_state [OF this assms(2)]
  show ?thesis
    by (simp add: initIncludes_def assms(1) includeState_def)
qed

lemma forestOf_unique:
  "distinct (map Relation (forestOf paths)) \<and> (\<forall>node \<in> set (forestOf paths). uniqueNode node)"
proof (induction paths rule: forestOf.induct)
  case (1 paths)
  let ?heads = "firstOccurrences (\<lambda>h. h) (map hd (filter (\<lambda>path. path \<noteq> []) paths))"
  have roots: "distinct (map Relation (forestOf paths))"
    unfolding forestOf_relations using firstOccurrences_distinct [of "\<lambda>h. h"] by simp
  have "uniqueNode node" if "node \<in> set (forestOf paths)" for node
  proof -
    from that obtain h where h: "h \<in> set ?heads"
      and node: "node = Include h (forestOf (below h paths))"
      by (subst (asm) forestOf.simps) auto
    from "1.IH" [OF h] show ?thesis
      by (simp add: node)
  qed
  with roots show ?case by blast
qed


text \<open>The example of the specification, on the code.\<close>

lemma initIncludes_example:
  "initIncludes
     [''include'' \<mapsto>
        [\<lparr>TopLevelKey = ''include'', NestedKeys = None, Value = ''author,comments.author''\<rparr>,
         \<lparr>TopLevelKey = ''include'', NestedKeys = None, Value = ''comments.replies''\<rparr>,
         \<lparr>TopLevelKey = ''include'', NestedKeys = None, Value = ''author.avatar''\<rparr>]] =
     Some [Include ''author'' [Include ''avatar'' []],
           Include ''comments'' [Include ''author'' [], Include ''replies'' []]]"
  by (simp add: initIncludes_def includeKeyword_def includeStep_def len_def split_def
        includeLoop.simps expandInclude.simps relationDelimiter_def nestedRelationDelimiter_def
        Let_def)

text \<open>
  Claim C5.  The claim asks that the chains of all values and fragments are merged
  into one forest, its nodes unique by relation name at each level and in the order
  of first appearance.  The inner loop of \<open>initIncludes\<close>, \<open>for cur != ""\<close>, ends at the
  first empty piece between the commas of a value, so the chains after it are never
  read: for the values \<open>a,,b.c\<close> and \<open>d,b\<close> the code returns the roots \<open>a\<close>, \<open>d\<close>,
  \<open>b\<close> without children.  The chain \<open>b.c\<close> of the first value is not merged (\<open>b\<close> has
  no child \<open>c\<close>), and \<open>b\<close>, which appears before \<open>d\<close>, comes after it.
\<close>

theorem initIncludes_stops_at_empty_piece:
  "initIncludes
     [''include'' \<mapsto>
        [\<lparr>TopLevelKey = ''include'', NestedKeys = None, Value = ''a,,b.c''\<rparr>,
         \<lparr>TopLevelKey = ''include'', NestedKeys = None, Value = ''d,b''\<rparr>]] =
     Some [Include ''a'' [], Include ''d'' [], Include ''b'' []]
   \<and> includeChains ''a,,b.c'' = [''a'', [], ''b.c'']
   \<and> relationPath ''b.c'' = [''b'', ''c'']"
proof -
  have code: "initIncludes
     [''include'' \<mapsto>
        [\<lparr>TopLevelKey = ''include'', NestedKeys = None, Value = ''a,,b.c''\<rparr>,
         \<lparr>TopLevelKey = ''include'', NestedKeys = None, Value = ''d,b''\<rparr>]] =
     Some [Include ''a'' [], Include ''d'' [], Include ''b'' []]"
    by (simp add: initIncludes_def includeKeyword_def includeStep_def len_def split_def
          includeLoop.simps expandInclude.simps relationDelimiter_def nestedRelationDelimiter_def
          Let_def)
  have chains: "includeChains ''a,,b.c'' = [''a'', [], ''b.c'']"
    by (simp add: includeChains_def)
  have path: "relationPath ''b.c'' = [''b'', ''c'']"
    by (simp add: relationPath_def)
  from code chains path show ?thesis by simp
qed

end
